theory Spec2Isabelle
  imports Main
begin

section \<open>XML elements\<close>

text \<open>
  An element of \<^verbatim>\<open>xml.etree.ElementTree\<close>: its tag, its attribute dictionary (in
  insertion order), its text and tail (\<open>None\<close> is Python's \<^verbatim>\<open>None\<close>) and the list of
  its children. The patcher owns the tree it parsed, so the tree is a value; the object
  identity of elements is modelled separately, in the section on the element store.
\<close>

datatype elem = Element
  (tag: string)
  (attrib: "(string \<times> string) list")
  (etext: "string option")
  (etail: "string option")
  (children: "elem list")

definition W_NS :: string where
  "W_NS = ''{http://schemas.openxmlformats.org/wordprocessingml/2006/main}''"

definition after_tags :: "string set" where
  "after_tags = {W_NS @ ''type'', W_NS @ ''pgSz'', W_NS @ ''pgMar'', W_NS @ ''paperSrc''}"

definition before_tags :: "string set" where
  "before_tags =
     {W_NS @ ''lnNumType'', W_NS @ ''pgNumType'', W_NS @ ''cols'', W_NS @ ''docGrid''}"

text \<open>\<^verbatim>\<open>elem.find(tag)\<close>: the first direct child with that tag, or \<^verbatim>\<open>None\<close>.\<close>

definition find_child :: "string \<Rightarrow> elem \<Rightarrow> elem option" where
  "find_child t e = List.find (\<lambda>c. tag c = t) (children e)"

text \<open>
  \<^verbatim>\<open>sectpr.remove(existing)\<close> deletes the first child that is the object \<open>existing\<close>;
  \<open>existing\<close> is the first child tagged \<^verbatim>\<open>pgBorders\<close>, so the first child with the
  property goes.
\<close>

fun remove_first :: "('a \<Rightarrow> bool) \<Rightarrow> 'a list \<Rightarrow> 'a list" where
  "remove_first P [] = []"
| "remove_first P (x # xs) = (if P x then xs else x # remove_first P xs)"

text \<open>
  \<^verbatim>\<open>list.insert(i, x)\<close> of Python: a negative index counts from the end, and an index
  outside the list is clipped to its ends.
\<close>

definition py_insert :: "int \<Rightarrow> 'a \<Rightarrow> 'a list \<Rightarrow> 'a list" where
  "py_insert i x xs =
     (let n = int (length xs);
          j = (if i < 0 then max 0 (i + n) else min i n)
      in take (nat j) xs @ x # drop (nat j) xs)"

text \<open>\<^verbatim>\<open>_deepcopy\<close> on values: a new element is built from the fields of the old one.\<close>

fun deepcopy :: "elem \<Rightarrow> elem" where
  "deepcopy (Element tg atts tx ta cs) = Element tg atts tx ta (map deepcopy cs)"

section \<open>Insertion in schema order\<close>

text \<open>
  The first loop of \<^verbatim>\<open>_insert_pgBorders_schema_order\<close>: \<open>i\<close> is the running index of
  \<^verbatim>\<open>enumerate\<close>, \<open>a\<close> the current \<^verbatim>\<open>after_idx\<close>.
\<close>

fun after_loop :: "int \<Rightarrow> int \<Rightarrow> elem list \<Rightarrow> int" where
  "after_loop i a [] = a"
| "after_loop i a (ch # chs) =
     after_loop (i + 1) (if tag ch \<in> after_tags \<and> i > a then i else a) chs"

text \<open>The second loop, with its \<^verbatim>\<open>break\<close>: \<open>b\<close> is the initial \<^verbatim>\<open>before_idx\<close>.\<close>

fun before_loop :: "int \<Rightarrow> int \<Rightarrow> elem list \<Rightarrow> int" where
  "before_loop i b [] = b"
| "before_loop i b (ch # chs) =
     (if tag ch \<in> before_tags then i else before_loop (i + 1) b chs)"

definition insert_idx :: "elem list \<Rightarrow> int" where
  "insert_idx chs =
     (let after_idx = after_loop 0 (- 1) chs;
          before_idx = before_loop 0 (int (length chs)) chs
      in min (after_idx + 1) before_idx)"

definition is_pgBorders :: "elem \<Rightarrow> bool" where
  "is_pgBorders c \<longleftrightarrow> tag c = W_NS @ ''pgBorders''"

text \<open>The children of the element once an existing fragment has been removed.\<close>

definition remaining_children :: "elem \<Rightarrow> elem list" where
  "remaining_children sectpr =
     (case find_child (W_NS @ ''pgBorders'') sectpr of
        None \<Rightarrow> children sectpr
      | Some existing \<Rightarrow> remove_first is_pgBorders (children sectpr))"

definition insert_pgBorders_schema_order :: "elem \<Rightarrow> elem \<Rightarrow> elem" where
  "insert_pgBorders_schema_order sectpr pgBorders_elem =
     (let chs = remaining_children sectpr
      in Element (tag sectpr) (attrib sectpr) (etext sectpr) (etail sectpr)
           (py_insert (insert_idx chs) (deepcopy pgBorders_elem) chs))"

text \<open>The index at which the patcher inserts into a section-properties element.\<close>

definition insertion_index :: "elem \<Rightarrow> int" where
  "insertion_index sectpr = insert_idx (remaining_children sectpr)"

section \<open>Finding section properties in a document tree\<close>

text \<open>
  \<^verbatim>\<open>elem.iter()\<close> without the element itself: all proper descendants, in document order.
\<close>

fun descendants :: "elem \<Rightarrow> elem list" where
  "descendants (Element tg atts tx ta cs) = concat (map (\<lambda>c. c # descendants c) cs)"

text \<open>
  The two steps of an ElementPath query: \<^verbatim>\<open>//tag\<close> selects, for every element of the
  current result, its proper descendants with the tag; \<^verbatim>\<open>/tag\<close> selects its children
  with the tag.
\<close>

definition select_descendant :: "string \<Rightarrow> elem list \<Rightarrow> elem list" where
  "select_descendant t result = concat (map (\<lambda>e. filter (\<lambda>d. tag d = t) (descendants e)) result)"

definition select_child :: "string \<Rightarrow> elem list \<Rightarrow> elem list" where
  "select_child t result = concat (map (\<lambda>e. filter (\<lambda>c. tag c = t) (children e)) result)"

text \<open>\<^verbatim>\<open>root.findall(".//w:body/w:sectPr")\<close>\<close>

definition findall_body_sectPr :: "elem \<Rightarrow> elem list" where
  "findall_body_sectPr root =
     select_child (W_NS @ ''sectPr'') (select_descendant (W_NS @ ''body'') [root])"

text \<open>\<^verbatim>\<open>root.findall(".//w:p/w:pPr/w:sectPr")\<close>\<close>

definition findall_p_sectPr :: "elem \<Rightarrow> elem list" where
  "findall_p_sectPr root =
     select_child (W_NS @ ''sectPr'')
       (select_child (W_NS @ ''pPr'') (select_descendant (W_NS @ ''p'') [root]))"

section \<open>Extraction of the fragment\<close>

text \<open>The part of \<^verbatim>\<open>_extract_pgBorders_from_source\<close> that works on the parsed tree.\<close>

definition extract_pgBorders_tree :: "elem \<Rightarrow> elem option" where
  "extract_pgBorders_tree root =
     (let sectprs = findall_body_sectPr root;
          pg = (if sectprs \<noteq> [] then find_child (W_NS @ ''pgBorders'') (last sectprs) else None)
      in case pg of
           Some found \<Rightarrow> Some found
         | None \<Rightarrow>
             (let sectprs = findall_p_sectPr root
              in if sectprs \<noteq> [] then find_child (W_NS @ ''pgBorders'') (last sectprs)
                 else None))"

text \<open>
  The extraction rule in the words of the specification, for comparison: the fragment of
  the last body-level section properties if it has one, otherwise the fragment of the
  last paragraph-embedded section properties that contain one.
\<close>

definition extract_pgBorders_spec :: "elem \<Rightarrow> elem option" where
  "extract_pgBorders_spec root =
     (let body_level = findall_body_sectPr root;
          pg = (if body_level \<noteq> [] then find_child (W_NS @ ''pgBorders'') (last body_level)
                else None)
      in case pg of
           Some found \<Rightarrow> Some found
         | None \<Rightarrow>
             (case filter (\<lambda>s. find_child (W_NS @ ''pgBorders'') s \<noteq> None) (findall_p_sectPr root) of
                [] \<Rightarrow> None
              | s # ss \<Rightarrow> find_child (W_NS @ ''pgBorders'') (last (s # ss))))"

section \<open>Patching every section of a tree\<close>

text \<open>
  The first loop of \<^verbatim>\<open>_set_pgBorders_in_all_sections\<close> mutates, in place, every
  \<^verbatim>\<open>sectPr\<close> child of every \<^verbatim>\<open>body\<close> element below the root. On values this is a
  traversal that rebuilds the tree. An insertion reads only the tags of the direct
  children of its element and changes only that list of children, so the order in which
  nested matches are visited does not matter; here the children are rebuilt first.
  \<open>patch_body\<close> rebuilds an element below the root, \<open>patch_body_root\<close> the root, which
  the query does not match as a \<^verbatim>\<open>body\<close>.
\<close>

fun patch_body :: "elem \<Rightarrow> elem \<Rightarrow> elem" where
  "patch_body pg (Element tg atts tx ta cs) =
     Element tg atts tx ta
       (map (\<lambda>c. if tg = W_NS @ ''body'' \<and> tag c = W_NS @ ''sectPr''
                  then insert_pgBorders_schema_order (patch_body pg c) pg
                  else patch_body pg c) cs)"

definition patch_body_root :: "elem \<Rightarrow> elem \<Rightarrow> elem" where
  "patch_body_root pg root =
     Element (tag root) (attrib root) (etext root) (etail root)
       (map (patch_body pg) (children root))"

text \<open>
  The second loop: every \<^verbatim>\<open>sectPr\<close> child of every \<^verbatim>\<open>pPr\<close> child of every \<^verbatim>\<open>p\<close>
  element below the root. The query is evaluated before the loop runs, so the copies
  that the loop inserts are not searched.
\<close>

definition in_children :: "string \<Rightarrow> (elem \<Rightarrow> elem) \<Rightarrow> elem \<Rightarrow> elem" where
  "in_children t f e =
     Element (tag e) (attrib e) (etext e) (etail e)
       (map (\<lambda>c. if tag c = t then f c else c) (children e))"

fun patch_p :: "elem \<Rightarrow> elem \<Rightarrow> elem" where
  "patch_p pg (Element tg atts tx ta cs) =
     Element tg atts tx ta
       (map (\<lambda>c. if tg = W_NS @ ''p'' \<and> tag c = W_NS @ ''pPr''
                  then in_children (W_NS @ ''sectPr'')
                         (\<lambda>s. insert_pgBorders_schema_order s pg) (patch_p pg c)
                  else patch_p pg c) cs)"

definition patch_p_root :: "elem \<Rightarrow> elem \<Rightarrow> elem" where
  "patch_p_root pg root =
     Element (tag root) (attrib root) (etext root) (etail root)
       (map (patch_p pg) (children root))"

section \<open>Packages and the file system\<close>

text \<open>
  A package is a zip archive: the list of its entries, name and content, in the order of
  \<^verbatim>\<open>infolist()\<close>. The file system maps a path to the archive stored there. The XML
  parser and serialiser of the standard library are parameters of the model.
\<close>

datatype error =
    FileNotFoundError string
  | PermissionError string
  | KeyError string
  | ParseError
  | ComError

type_synonym archive = "(string \<times> string) list"

type_synonym filesystem = "string \<Rightarrow> archive option"

record xml_lib =
  fromstring :: "string \<Rightarrow> elem option"
  tostring :: "elem \<Rightarrow> string"

text \<open>
  \<^verbatim>\<open>ZipFile.read(name)\<close>: the name is looked up in a dictionary that later entries of
  the same name overwrite, so the last entry of that name is read.
\<close>

definition zread :: "archive \<Rightarrow> string \<Rightarrow> error + string" where
  "zread z name = (case map_of (rev z) name of None \<Rightarrow> Inl (KeyError name) | Some d \<Rightarrow> Inr d)"

text \<open>Opening a package and parsing its body part, as both functions of the patcher do.\<close>

definition read_document_xml :: "xml_lib \<Rightarrow> filesystem \<Rightarrow> string \<Rightarrow> error + elem" where
  "read_document_xml lib fs path =
     (case fs path of
        None \<Rightarrow> Inl (FileNotFoundError path)
      | Some z \<Rightarrow>
          (case zread z ''word/document.xml'' of
             Inl e \<Rightarrow> Inl e
           | Inr xml \<Rightarrow>
               (case fromstring lib xml of None \<Rightarrow> Inl ParseError | Some root \<Rightarrow> Inr root)))"

definition extract_pgBorders_from_source :: "xml_lib \<Rightarrow> filesystem \<Rightarrow> string \<Rightarrow> error + elem option" where
  "extract_pgBorders_from_source lib fs source_docx =
     (case read_document_xml lib fs source_docx of
        Inl e \<Rightarrow> Inl e
      | Inr root \<Rightarrow> Inr (extract_pgBorders_tree root))"

text \<open>\<^verbatim>\<open>zout.writestr(item, data)\<close> on the archive being written at \<open>path\<close>.\<close>

definition writestr :: "string \<Rightarrow> string \<Rightarrow> string \<Rightarrow> filesystem \<Rightarrow> filesystem" where
  "writestr path name data fs =
     fs(path \<mapsto> (case fs path of None \<Rightarrow> [] | Some z \<Rightarrow> z) @ [(name, data)])"

text \<open>
  The loop over \<^verbatim>\<open>zin.infolist()\<close>: \<open>xml\<close> is the serialised tree, \<open>names\<close> the file
  names of the entries still to be written.
\<close>

fun write_items :: "archive \<Rightarrow> string \<Rightarrow> string \<Rightarrow> string list \<Rightarrow> filesystem \<Rightarrow> (error + unit) \<times> filesystem" where
  "write_items zin xml new_docx [] fs = (Inr (), fs)"
| "write_items zin xml new_docx (name # names) fs =
     (case zread zin name of
        Inl e \<Rightarrow> (Inl e, fs)
      | Inr data \<Rightarrow>
          write_items zin xml new_docx names
            (writestr new_docx name (if name = ''word/document.xml'' then xml else data) fs))"

text \<open>\<^verbatim>\<open>os.replace(src, dst)\<close>\<close>

definition os_replace :: "string \<Rightarrow> string \<Rightarrow> filesystem \<Rightarrow> (error + unit) \<times> filesystem" where
  "os_replace src dst fs =
     (case fs src of
        None \<Rightarrow> (Inl (FileNotFoundError src), fs)
      | Some z \<Rightarrow> (Inr (), (fs(dst \<mapsto> z))(src := None)))"

text \<open>The second half of \<^verbatim>\<open>_set_pgBorders_in_all_sections\<close>: the rewrite of the package.\<close>

definition rewrite_package :: "xml_lib \<Rightarrow> filesystem \<Rightarrow> string \<Rightarrow> elem \<Rightarrow> (error + bool) \<times> filesystem" where
  "rewrite_package lib fs target_docx root =
     (let new_docx = target_docx @ ''.tmp''
      in case fs target_docx of
           None \<Rightarrow> (Inl (FileNotFoundError target_docx), fs)
         | Some zin \<Rightarrow>
             (case write_items zin (tostring lib root) new_docx (map fst zin) (fs(new_docx \<mapsto> [])) of
                (Inl e, fs') \<Rightarrow> (Inl e, fs')
              | (Inr u, fs') \<Rightarrow>
                  (case os_replace new_docx target_docx fs' of
                     (Inl e, fs'') \<Rightarrow> (Inl e, fs'')
                   | (Inr u, fs'') \<Rightarrow> (Inr True, fs''))))"


definition set_pgBorders_in_all_sections :: "xml_lib \<Rightarrow> filesystem \<Rightarrow> string \<Rightarrow> elem \<Rightarrow> (error + bool) \<times> filesystem" where
  "set_pgBorders_in_all_sections lib fs target_docx pgBorders_elem =
     (case read_document_xml lib fs target_docx of
        Inl e \<Rightarrow> (Inl e, fs)
      | Inr root \<Rightarrow>
          (let root1 = patch_body_root pgBorders_elem root;
               changed = (findall_body_sectPr root \<noteq> [] \<or> findall_p_sectPr root1 \<noteq> [])
           in if \<not> changed then (Inr False, fs)
              else rewrite_package lib fs target_docx (patch_p_root pgBorders_elem root1)))"

definition patch_art_page_borders :: "xml_lib \<Rightarrow> filesystem \<Rightarrow> string \<Rightarrow> string \<Rightarrow> (error + bool) \<times> filesystem" where
  "patch_art_page_borders lib fs source_docx output_docx =
     (case extract_pgBorders_from_source lib fs source_docx of
        Inl e \<Rightarrow> (Inl e, fs)
      | Inr None \<Rightarrow> (Inr False, fs)
      | Inr (Some pg) \<Rightarrow> set_pgBorders_in_all_sections lib fs output_docx pg)"

section \<open>The document host\<close>

text \<open>
  The word processor is driven through COM. Every call into it is a value of \<open>call\<close>;
  the host, a parameter of the model, answers a call from the file system and its own
  state, and may change both. \<open>Raised\<close> is a call that raises an exception. The calls
  made and their answers are recorded in the \<open>trace\<close> of the world, in order. The
  progress sink, and the directories that \<^verbatim>\<open>save_docx\<close> creates, are not modelled.
  The three copies made for a section are one call each.
\<close>

datatype doc = Src | Tgt | Work

datatype call =
    CoInitialize
  | Dispatch
  | SetVisible bool
  | SetDisplayAlerts
  | SetScreenUpdating
  | SetEnableEvents
  | DocumentsOpen doc string bool
  | SaveCopyAs doc string nat
  | SaveAs2 doc string nat
  | SaveAs doc string nat
  | Close doc
  | GetApplication
  | Styles
  | StyleAttr int string
  | OrganizerCopy string string
  | CopyStylesFromTemplate string
  | SectionsCount doc
  | CopyPageSetup int int
  | CopyPageBordersBasic int int
  | CopyHeadersFooters int int
  | Save
  | Quit
  | CoUninitialize

datatype reply = Raised | Returned | Text string | Number int

record 'h world =
  files :: filesystem
  hstate :: 'h
  trace :: "(call \<times> reply) list"

type_synonym 'h com = "call \<Rightarrow> filesystem \<Rightarrow> 'h \<Rightarrow> reply \<times> filesystem \<times> 'h"

type_synonym ('h, 'a) action = "'h world \<Rightarrow> (error + 'a) \<times> 'h world"

text \<open>
  What the program uses of the operating system besides the files themselves: the
  normalisation of a path, the path of a name in the directory for temporary files, and
  whether the removal of a file is refused in a given state of the host and the file
  system (the file is open in the host, or protected).
\<close>

record 'h os_lib =
  abspath_expanduser :: "string \<Rightarrow> string"
  tempdir_join :: "string \<Rightarrow> string"
  remove_refused :: "'h \<Rightarrow> filesystem \<Rightarrow> string \<Rightarrow> bool"

definition invoke :: "'h com \<Rightarrow> call \<Rightarrow> 'h world \<Rightarrow> reply \<times> 'h world" where
  "invoke com c w =
     (case com c (files w) (hstate w) of
        (r, fs', h') \<Rightarrow> (r, \<lparr>files = fs', hstate = h', trace = trace w @ [(c, r)]\<rparr>))"

text \<open>A call outside any \<^verbatim>\<open>try\<close>: an exception of the host propagates.\<close>

definition must :: "'h com \<Rightarrow> call \<Rightarrow> ('h, reply) action" where
  "must com c w =
     (case invoke com c w of (r, w') \<Rightarrow> (if r = Raised then Inl ComError else Inr r, w'))"

text \<open>Sequencing: an error of the first action ends the computation.\<close>

definition and_then :: "('h, 'a) action \<Rightarrow> ('a \<Rightarrow> ('h, 'b) action) \<Rightarrow> ('h, 'b) action" where
  "and_then m f w = (case m w of (Inl e, w') \<Rightarrow> (Inl e, w') | (Inr x, w') \<Rightarrow> f x w')"

text \<open>\<^verbatim>\<open>try: body finally: cleanup\<close>: an exception of the cleanup replaces the result.\<close>

definition try_finally :: "('h, 'a) action \<Rightarrow> ('h, unit) action \<Rightarrow> ('h, 'a) action" where
  "try_finally body cleanup w =
     (case body w of
        (r, w') \<Rightarrow> (case cleanup w' of (Inl e, w'') \<Rightarrow> (Inl e, w'') | (Inr u, w'') \<Rightarrow> (r, w'')))"

text \<open>\<^verbatim>\<open>try: m except Exception: pass\<close>\<close>

definition attempt :: "('h, 'a) action \<Rightarrow> ('h, unit) action" where
  "attempt m w = (Inr (), snd (m w))"

text \<open>
  \<^verbatim>\<open>os.remove(path)\<close>: it raises when the file is missing and when the operating
  system refuses the removal; the file then stays.
\<close>

definition os_remove :: "'h os_lib \<Rightarrow> string \<Rightarrow> ('h, unit) action" where
  "os_remove os path w =
     (case files w path of
        None \<Rightarrow> (Inl (FileNotFoundError path), w)
      | Some z \<Rightarrow>
          if remove_refused os (hstate w) (files w) path then (Inl (PermissionError path), w)
          else (Inr (), w\<lparr>files := (files w)(path := None)\<rparr>))"

text \<open>\<^verbatim>\<open>shutil.copy2(src, dst)\<close>\<close>

definition copy2 :: "string \<Rightarrow> string \<Rightarrow> ('h, unit) action" where
  "copy2 src dst w =
     (case files w src of
        None \<Rightarrow> (Inl (FileNotFoundError src), w)
      | Some z \<Rightarrow> (Inr (), w\<lparr>files := (files w)(dst \<mapsto> z)\<rparr>))"

definition save_docx :: "'h com \<Rightarrow> doc \<Rightarrow> string \<Rightarrow> ('h, unit) action" where
  "save_docx com d path w =
     (case invoke com (SaveCopyAs d path 12) w of
        (r1, w1) \<Rightarrow>
          if r1 \<noteq> Raised then (Inr (), w1)
          else
            (case invoke com (SaveAs2 d path 12) w1 of
               (r2, w2) \<Rightarrow>
                 if r2 \<noteq> Raised then (Inr (), w2)
                 else
                   (case invoke com (SaveAs d path 12) w2 of
                      (r3, w3) \<Rightarrow> (if r3 \<noteq> Raised then Inr () else Inl ComError, w3))))"

section \<open>Copying styles\<close>

text \<open>
  The name of the \<open>k\<close>-th style as \<^verbatim>\<open>try_organizer_copy_all_styles\<close> determines it:
  \<^verbatim>\<open>NameLocal\<close> if it can be read and is not empty, otherwise \<^verbatim>\<open>Name\<close> if it can be
  read, otherwise what the first attempt left.
\<close>

definition style_name :: "'h com \<Rightarrow> int \<Rightarrow> 'h world \<Rightarrow> string option \<times> 'h world" where
  "style_name com k w =
     (case invoke com (StyleAttr k ''NameLocal'') w of
        (r1, w1) \<Rightarrow>
          (let name = (case r1 of Text s \<Rightarrow> Some s | _ \<Rightarrow> None)
           in if name \<noteq> None \<and> name \<noteq> Some [] then (name, w1)
              else
                (case invoke com (StyleAttr k ''Name'') w1 of
                   (r2, w2) \<Rightarrow> ((case r2 of Text s \<Rightarrow> Some s | _ \<Rightarrow> name), w2))))"

text \<open>The loop over the styles of the source: \<open>moved\<close> counts the copies that succeeded.\<close>

fun organizer_loop :: "'h com \<Rightarrow> string \<Rightarrow> int list \<Rightarrow> int \<Rightarrow> 'h world \<Rightarrow> int \<times> 'h world" where
  "organizer_loop com dst_doc_path [] moved w = (moved, w)"
| "organizer_loop com dst_doc_path (k # ks) moved w =
     (case style_name com k w of
        (name, w1) \<Rightarrow>
          if name = None \<or> name = Some [] then organizer_loop com dst_doc_path ks moved w1
          else
            (case invoke com (OrganizerCopy dst_doc_path (the name)) w1 of
               (r, w2) \<Rightarrow>
                 organizer_loop com dst_doc_path ks (if r \<noteq> Raised then moved + 1 else moved) w2))"

definition try_organizer_copy_all_styles :: "'h com \<Rightarrow> string \<Rightarrow> ('h, int) action" where
  "try_organizer_copy_all_styles com dst_doc_path =
     and_then (must com GetApplication) (\<lambda>app.
     and_then (must com Styles) (\<lambda>styles w.
       case styles of
         Number n \<Rightarrow>
           (case organizer_loop com dst_doc_path [1..n] 0 w of (moved, w') \<Rightarrow> (Inr moved, w'))
       | _ \<Rightarrow> (Inl ComError, w)))"

text \<open>
  The body of the outer \<^verbatim>\<open>try\<close> of \<^verbatim>\<open>copy_styles_via_template\<close>: the snapshot is
  saved, by \<^verbatim>\<open>save_docx\<close> if saving a template raises, and applied to the working
  document.
\<close>

definition snapshot_and_apply :: "'h com \<Rightarrow> string \<Rightarrow> ('h, unit) action" where
  "snapshot_and_apply com tmp_dotx =
     and_then
       (\<lambda>w. case invoke com (SaveCopyAs Src tmp_dotx 16) w of
               (r, w1) \<Rightarrow> if r \<noteq> Raised then (Inr (), w1) else save_docx com Src tmp_dotx w1)
       (\<lambda>u. and_then (must com (CopyStylesFromTemplate tmp_dotx)) (\<lambda>r w. (Inr (), w)))"

definition copy_styles_via_template :: "'h os_lib \<Rightarrow> 'h com \<Rightarrow> ('h, unit) action" where
  "copy_styles_via_template os com =
     (let tmp_dotx = tempdir_join os ''style_source_tmp.dotx''
      in try_finally (snapshot_and_apply com tmp_dotx) (attempt (os_remove os tmp_dotx)))"

text \<open>The block "Styles first" of \<^verbatim>\<open>transfer_layout\<close>.\<close>

definition copy_styles :: "'h os_lib \<Rightarrow> 'h com \<Rightarrow> string \<Rightarrow> ('h, unit) action" where
  "copy_styles os com output_docx =
     and_then (try_organizer_copy_all_styles com output_docx) (\<lambda>moved.
       if moved = 0 then copy_styles_via_template os com else (\<lambda>w. (Inr (), w)))"

section \<open>Copying the layout\<close>

text \<open>The source section chosen for target section \<open>i\<close>.\<close>

definition s_idx :: "bool \<Rightarrow> int \<Rightarrow> int \<Rightarrow> int" where
  "s_idx section_map src_count i = (if section_map \<and> i \<le> src_count then i else 1)"

fun layout_loop :: "'h com \<Rightarrow> bool \<Rightarrow> int \<Rightarrow> int list \<Rightarrow> ('h, unit) action" where
  "layout_loop com section_map src_count [] w = (Inr (), w)"
| "layout_loop com section_map src_count (i # rest) w =
     and_then (must com (CopyPageSetup (s_idx section_map src_count i) i)) (\<lambda>r1.
     and_then (must com (CopyPageBordersBasic (s_idx section_map src_count i) i)) (\<lambda>r2.
     and_then (must com (CopyHeadersFooters (s_idx section_map src_count i) i)) (\<lambda>r3.
       layout_loop com section_map src_count rest))) w"

definition as_count :: "reply \<Rightarrow> ('h, int) action" where
  "as_count r w = (case r of Number n \<Rightarrow> (Inr n, w) | _ \<Rightarrow> (Inl ComError, w))"

text \<open>The block "Layout" of \<^verbatim>\<open>transfer_layout\<close>.\<close>

definition copy_layout :: "'h com \<Rightarrow> bool \<Rightarrow> ('h, unit) action" where
  "copy_layout com section_map =
     and_then (and_then (must com (SectionsCount Src)) as_count) (\<lambda>src_count.
     and_then (and_then (must com (SectionsCount Work)) as_count) (\<lambda>tgt_count.
       layout_loop com section_map src_count [1..tgt_count]))"

section \<open>The pipeline\<close>

text \<open>Saving the working document before the patch, with its fallback.\<close>

definition save_before_patch :: "'h os_lib \<Rightarrow> 'h com \<Rightarrow> string \<Rightarrow> ('h, unit) action" where
  "save_before_patch os com output_docx w =
     (case invoke com Save w of
        (r, w1) \<Rightarrow>
          if r \<noteq> Raised then (Inr (), w1)
          else
            (let tmp = tempdir_join os ''docx_pre_patch.docx''
             in and_then (save_docx com Work tmp) (\<lambda>u. copy2 tmp output_docx) w1))"

text \<open>The inner \<^verbatim>\<open>try\<close> block and its \<^verbatim>\<open>finally\<close>.\<close>

definition with_documents :: "'h os_lib \<Rightarrow> 'h com \<Rightarrow> string \<Rightarrow> bool \<Rightarrow> ('h, unit) action" where
  "with_documents os com output_docx section_map =
     try_finally
       (and_then (copy_styles os com output_docx) (\<lambda>u.
        and_then (copy_layout com section_map) (\<lambda>u.
          save_before_patch os com output_docx)))
       (and_then (attempt (must com (Close Src))) (\<lambda>u. attempt (must com (Close Work))))"

text \<open>The three settings made in one \<^verbatim>\<open>try\<close>, all errors ignored.\<close>

definition quiet_settings :: "'h com \<Rightarrow> ('h, unit) action" where
  "quiet_settings com =
     attempt (and_then (must com SetDisplayAlerts) (\<lambda>r.
              and_then (must com SetScreenUpdating) (\<lambda>r. must com SetEnableEvents)))"

text \<open>The outer \<^verbatim>\<open>try\<close> block and its \<^verbatim>\<open>finally\<close>.\<close>

definition with_word :: "'h os_lib \<Rightarrow> 'h com \<Rightarrow> string \<Rightarrow> string \<Rightarrow> string \<Rightarrow> bool \<Rightarrow> ('h, unit) action" where
  "with_word os com source_docx target_docx output_docx section_map =
     try_finally
       (and_then (quiet_settings com) (\<lambda>u.
        and_then (must com (DocumentsOpen Src source_docx True)) (\<lambda>src.
        and_then (must com (DocumentsOpen Tgt target_docx False)) (\<lambda>tgt.
        and_then (save_docx com Tgt output_docx) (\<lambda>u.
        and_then (must com (Close Tgt)) (\<lambda>r.
        and_then (must com (DocumentsOpen Work output_docx False)) (\<lambda>work.
          with_documents os com output_docx section_map)))))))
       (and_then (attempt (must com Quit)) (\<lambda>u.
        and_then (must com CoUninitialize) (\<lambda>r w. (Inr (), w))))"

text \<open>The patch runs on the file system, without the host.\<close>

definition patch_step :: "xml_lib \<Rightarrow> string \<Rightarrow> string \<Rightarrow> ('h, bool) action" where
  "patch_step lib source_docx output_docx w =
     (case patch_art_page_borders lib (files w) source_docx output_docx of
        (r, fs') \<Rightarrow> (r, w\<lparr>files := fs'\<rparr>))"

definition transfer_layout ::
  "'h os_lib \<Rightarrow> xml_lib \<Rightarrow> 'h com \<Rightarrow> string \<Rightarrow> string \<Rightarrow> string \<Rightarrow> bool \<Rightarrow> bool \<Rightarrow> ('h, string) action" where
  "transfer_layout os lib com source_docx0 target_docx0 output_docx0 visible section_map w =
     (let source_docx = abspath_expanduser os source_docx0;
          target_docx = abspath_expanduser os target_docx0;
          output_docx = abspath_expanduser os output_docx0
      in if files w source_docx = None then (Inl (FileNotFoundError source_docx), w)
         else if files w target_docx = None then (Inl (FileNotFoundError target_docx), w)
         else
           and_then (must com CoInitialize) (\<lambda>r.
           and_then (must com Dispatch) (\<lambda>word.
           and_then (must com (SetVisible visible)) (\<lambda>r.
           and_then (with_word os com source_docx target_docx output_docx section_map) (\<lambda>u.
           and_then (patch_step lib source_docx output_docx) (\<lambda>patched w'.
             (Inr output_docx, w')))))) w)"

section \<open>The archive a rewrite produces\<close>


section \<open>Reading the trace\<close>

text \<open>
  The calls made between two worlds, a successful copy of a named style, and the first
  call that \<^verbatim>\<open>copy_styles_via_template\<close> makes, which marks its entry.
\<close>

definition events_since :: "'h world \<Rightarrow> 'h world \<Rightarrow> (call \<times> reply) list" where
  "events_since w w' = drop (length (trace w)) (trace w')"

definition copied :: "call \<times> reply \<Rightarrow> bool" where
  "copied e = (case fst e of OrganizerCopy dst name \<Rightarrow> snd e \<noteq> Raised | _ \<Rightarrow> False)"

definition fallback_entry :: "'h os_lib \<Rightarrow> call \<times> reply \<Rightarrow> bool" where
  "fallback_entry os e \<longleftrightarrow> fst e = SaveCopyAs Src (tempdir_join os ''style_source_tmp.dotx'') 16"

text \<open>An action that adds to the trace only calls with the property \<open>P\<close>.\<close>

definition emits :: "(call \<times> reply \<Rightarrow> bool) \<Rightarrow> ('h world \<Rightarrow> 'r \<times> 'h world) \<Rightarrow> bool" where
  "emits P m \<longleftrightarrow> (\<forall>w. \<exists>ev. trace (snd (m w)) = trace w @ ev \<and> (\<forall>e \<in> set ev. P e))"


section \<open>The element store\<close>

text \<open>
  Elements are objects: two elements with equal fields can be different objects, and an
  element can be the child of several. For the claim about sharing the elements live in a
  store, a list of nodes in which the address of an object is its position and the
  children of a node are addresses. Creating an element appends a node; nothing is ever
  freed.
\<close>

record node =
  ntag :: string
  nattrib :: "(string \<times> string) list"
  ntext :: "string option"
  ntail :: "string option"
  nchildren :: "nat list"

type_synonym store = "node list"

text \<open>
  \<^verbatim>\<open>_deepcopy\<close> on the store. \<^verbatim>\<open>ET.Element(elem.tag, elem.attrib)\<close> creates the new
  element with a copy of the attribute dictionary, without text, tail or children; the
  loop appends the copy of each child to it; the text and the tail are set last. The
  first argument bounds the depth of the recursion, as the interpreter does: \<open>None\<close> is
  the recursion running out (or an address that is not in the store).
\<close>

fun deepcopy_at :: "nat \<Rightarrow> store \<Rightarrow> nat \<Rightarrow> (nat \<times> store) option"
  and copy_children :: "nat \<Rightarrow> store \<Rightarrow> nat \<Rightarrow> nat list \<Rightarrow> store option" where
  "deepcopy_at 0 s elem = None"
| "deepcopy_at (Suc fuel) s elem =
     (if elem < length s then
        (let new = length s;
             s1 = s @ [\<lparr>ntag = ntag (s ! elem), nattrib = nattrib (s ! elem),
                        ntext = None, ntail = None, nchildren = []\<rparr>]
         in case copy_children fuel s1 new (nchildren (s1 ! elem)) of
              None \<Rightarrow> None
            | Some s2 \<Rightarrow>
                Some (new, s2[new := (s2 ! new)\<lparr>ntext := ntext (s2 ! elem),
                                                ntail := ntail (s2 ! elem)\<rparr>]))
      else None)"
| "copy_children fuel s new [] = Some s"
| "copy_children fuel s new (child # rest) =
     (case deepcopy_at fuel s child of
        None \<Rightarrow> None
      | Some (c, s') \<Rightarrow>
          copy_children fuel
            (s'[new := (s' ! new)\<lparr>nchildren := nchildren (s' ! new) @ [c]\<rparr>]) new rest)"

text \<open>
  The tree that an address stands for: \<open>repr lo hi s a t\<close> says that the object at \<open>a\<close>
  and all objects below it have the fields of the tree \<open>t\<close> and addresses from \<open>lo\<close>
  up to, not including, \<open>hi\<close>.
\<close>

fun repr :: "nat \<Rightarrow> nat \<Rightarrow> store \<Rightarrow> nat \<Rightarrow> elem \<Rightarrow> bool" where
  "repr lo hi s a (Element tg atts tx ta cs) \<longleftrightarrow>
     lo \<le> a \<and> a < hi \<and> a < length s
     \<and> ntag (s ! a) = tg \<and> nattrib (s ! a) = atts
     \<and> ntext (s ! a) = tx \<and> ntail (s ! a) = ta
     \<and> list_all2 (repr lo hi s) (nchildren (s ! a)) cs"

text \<open>The objects reachable from an object through lists of children.\<close>

inductive reaches :: "store \<Rightarrow> nat \<Rightarrow> nat \<Rightarrow> bool" for s :: store and a :: nat where
  self: "reaches s a a"
| child: "reaches s a b \<Longrightarrow> b < length s \<Longrightarrow> c \<in> set (nchildren (s ! b)) \<Longrightarrow> reaches s a c"

text \<open>The number of nested calls that copying a tree takes.\<close>

fun depth :: "elem \<Rightarrow> nat" where
  "depth (Element tg atts tx ta cs) = Suc (foldr max (map depth cs) 0)"

section \<open>Example documents\<close>

text \<open>Small elements on which the theorems below are instantiated.\<close>

definition el :: "string \<Rightarrow> elem list \<Rightarrow> elem" where
  "el name cs = Element (W_NS @ name) [] None None cs"

definition sect_misordered :: elem where
  "sect_misordered = el ''sectPr'' [el ''cols'' [], el ''pgSz'' []]"

definition sect_ordered :: elem where
  "sect_ordered =
     el ''sectPr'' [el ''pgSz'' [], el ''pgBorders'' [], el ''pgMar'' [], el ''cols'' []]"

definition pg_example :: elem where
  "pg_example = Element (W_NS @ ''pgBorders'') [(W_NS @ ''offsetFrom'', ''page'')] None None
     [Element (W_NS @ ''top'') [(W_NS @ ''val'', ''apples'')] None None []]"

definition doc_two_breaks :: elem where
  "doc_two_breaks = Element (W_NS @ ''document'') [] None None
     [Element (W_NS @ ''body'') [] None None
        [Element (W_NS @ ''p'') [] None None
           [Element (W_NS @ ''pPr'') [] None None
              [Element (W_NS @ ''sectPr'') [] None None [pg_example]]],
         Element (W_NS @ ''p'') [] None None
           [Element (W_NS @ ''pPr'') [] None None
              [Element (W_NS @ ''sectPr'') [] None None []]]]]"

definition doc_source :: elem where
  "doc_source = el ''document'' [el ''body'' [el ''sectPr'' [el ''pgSz'' [], pg_example]]]"

definition doc_target :: elem where
  "doc_target = el ''document''
     [el ''body''
        [el ''p'' [el ''pPr'' [el ''sectPr'' []]],
         el ''sectPr'' [el ''pgSz'' [], el ''pgBorders'' [], el ''cols'' []]]]"

definition doc_plain :: elem where
  "doc_plain = el ''document'' [el ''body'' [el ''p'' []]]"

text \<open>A parser and a serialiser that know the example documents by name.\<close>

definition lib_example :: xml_lib where
  "lib_example =
     \<lparr>fromstring = (\<lambda>s. if s = ''<source/>'' then Some doc_source
                         else if s = ''<target/>'' then Some doc_target
                         else if s = ''<plain/>'' then Some doc_plain
                         else None),
      tostring = (\<lambda>e. ''<'' @ tag e @ ''/>'')\<rparr>"

definition fs_example :: filesystem where
  "fs_example =
     [''source.docx'' \<mapsto>
        [(''[Content_Types].xml'', ''types''), (''word/document.xml'', ''<source/>'')],
      ''output.docx'' \<mapsto>
        [(''[Content_Types].xml'', ''types''), (''word/document.xml'', ''<target/>''),
         (''word/styles.xml'', ''styles'')],
      ''plain.docx'' \<mapsto> [(''word/document.xml'', ''<plain/>'')]]"


text \<open>
  A host with two styles, one section in the source and three in the working document.
  The name of the first style is read from \<^verbatim>\<open>NameLocal\<close>, that of the second from
  \<^verbatim>\<open>Name\<close>; the flag says whether copying a named style succeeds. Saving a copy
  creates the file.
\<close>

definition os_example :: "unit os_lib" where
  "os_example =
     \<lparr>abspath_expanduser = (\<lambda>p. p), tempdir_join = (\<lambda>name. ''/tmp/'' @ name),
      remove_refused = (\<lambda>h fs path. False)\<rparr>"

text \<open>An operating system that refuses to remove a file for as long as it exists.\<close>

definition os_locked :: "unit os_lib" where
  "os_locked =
     \<lparr>abspath_expanduser = (\<lambda>p. p), tempdir_join = (\<lambda>name. ''/tmp/'' @ name),
      remove_refused = (\<lambda>h fs path. True)\<rparr>"

definition com_example :: "bool \<Rightarrow> unit com" where
  "com_example organizer_ok c fs h =
     (case c of
        Styles \<Rightarrow> (Number 2, fs, h)
      | StyleAttr k a \<Rightarrow>
          (if a = ''NameLocal'' then (if k = 1 then Text ''Normal'' else Raised)
           else Text ''Heading 1'', fs, h)
      | OrganizerCopy dst name \<Rightarrow> (if organizer_ok then Returned else Raised, fs, h)
      | SectionsCount d \<Rightarrow> (Number (if d = Src then 1 else 3), fs, h)
      | SaveCopyAs d path fmt \<Rightarrow> (Returned, fs(path \<mapsto> []), h)
      | _ \<Rightarrow> (Returned, fs, h))"

definition world_example :: "unit world" where
  "world_example = \<lparr>files = fs_example, hstate = (), trace = []\<rparr>"

text \<open>A store that holds the example fragment: a border element with one child.\<close>

definition store_example :: store where
  "store_example =
     [\<lparr>ntag = W_NS @ ''pgBorders'', nattrib = [(W_NS @ ''offsetFrom'', ''page'')],
       ntext = None, ntail = None, nchildren = [1]\<rparr>,
      \<lparr>ntag = W_NS @ ''top'', nattrib = [(W_NS @ ''val'', ''apples'')],
       ntext = None, ntail = None, nchildren = []\<rparr>]"

text \<open>The same host, except that applying a template raises.\<close>

definition com_template_fails :: "unit com" where
  "com_template_fails c fs h =
     (case c of
        CopyStylesFromTemplate path \<Rightarrow> (Raised, fs, h)
      | _ \<Rightarrow> com_example False c fs h)"

section \<open>Properties of the insertion\<close>

lemma deepcopy_id: "deepcopy e = e"
  by (induction e rule: deepcopy.induct) (simp add: map_idI)

lemma after_loop_lower: "a \<le> after_loop i a chs"
proof (induction chs arbitrary: i a)
  case Nil
  show ?case by simp
next
  case (Cons ch chs)
  let ?a' = "if tag ch \<in> after_tags \<and> i > a then i else a"
  have "a \<le> ?a'" by simp
  also have "?a' \<le> after_loop (i + 1) ?a' chs" by (rule Cons.IH)
  finally show ?case by simp
qed

lemma after_loop_member:
  "j < length chs \<Longrightarrow> tag (chs ! j) \<in> after_tags \<Longrightarrow> a < i \<Longrightarrow>
     i + int j \<le> after_loop i a chs"
proof (induction chs arbitrary: i a j)
  case Nil
  then show ?case by simp
next
  case (Cons ch chs)
  show ?case
  proof (cases j)
    case 0
    with Cons.prems have "after_loop i a (ch # chs) = after_loop (i + 1) i chs"
      by simp
    with 0 show ?thesis
      using after_loop_lower [of i "i + 1" chs] by simp
  next
    case (Suc k)
    let ?a' = "if tag ch \<in> after_tags \<and> i > a then i else a"
    have "?a' < i + 1" using Cons.prems by simp
    with Suc Cons.prems have "(i + 1) + int k \<le> after_loop (i + 1) ?a' chs"
      by (intro Cons.IH) simp_all
    with Suc show ?thesis by simp
  qed
qed

lemma after_loop_none:
  "\<forall>ch \<in> set chs. tag ch \<notin> after_tags \<Longrightarrow> after_loop i a chs = a"
  by (induction chs arbitrary: i a) auto

lemma before_loop_upper:
  "j < length chs \<Longrightarrow> tag (chs ! j) \<in> before_tags \<Longrightarrow> before_loop i b chs \<le> i + int j"
proof (induction chs arbitrary: i j)
  case Nil
  then show ?case by simp
next
  case (Cons ch chs)
  show ?case
  proof (cases j)
    case 0
    with Cons.prems show ?thesis by simp
  next
    case (Suc k)
    with Cons.prems have "before_loop (i + 1) b chs \<le> (i + 1) + int k"
      by (intro Cons.IH) simp_all
    with Suc show ?thesis by simp
  qed
qed

lemma before_loop_none:
  "\<forall>ch \<in> set chs. tag ch \<notin> before_tags \<Longrightarrow> before_loop i b chs = b"
  by (induction chs arbitrary: i) auto

lemma before_loop_lower: "min i b \<le> before_loop i b chs"
proof (induction chs arbitrary: i)
  case Nil
  show ?case by simp
next
  case (Cons ch chs)
  have "min i b \<le> min (i + 1) b" by simp
  also have "\<dots> \<le> before_loop (i + 1) b chs" by (rule Cons.IH)
  finally show ?case by simp
qed

section \<open>The insertion index\<close>

lemma before_loop_past:
  "j < length chs \<Longrightarrow> \<forall>k < length chs. tag (chs ! k) \<in> before_tags \<longrightarrow> j < k \<Longrightarrow>
     b = i + int (length chs) \<Longrightarrow> i + int j < before_loop i b chs"
proof (induction chs arbitrary: i j)
  case Nil
  then show ?case by simp
next
  case (Cons ch chs)
  from Cons.prems(1,2) have hd: "tag ch \<notin> before_tags" by fastforce
  show ?case
  proof (cases j)
    case 0
    have "min (i + 1) b \<le> before_loop (i + 1) b chs" by (rule before_loop_lower)
    with Cons.prems(3) 0 hd show ?thesis by simp
  next
    case (Suc m)
    from Suc Cons.prems(2) have "\<forall>k < length chs. tag (chs ! k) \<in> before_tags \<longrightarrow> m < k"
      by fastforce
    with Suc Cons.prems have "(i + 1) + int m < before_loop (i + 1) b chs"
      by (intro Cons.IH) simp_all
    with Suc hd show ?thesis by simp
  qed
qed

text \<open>
  Claim C1, as the code has it. For every section-properties element, with the index
  computed after an existing fragment has been removed: the index is at most the index
  of every child of the "before" group (line-number type, page-number type, columns,
  document grid); if no child of the "after" group (page type, page size, page margins,
  paper source) stands behind a child of the "before" group, the index is at least one
  more than the index of every child of the "after" group; and if no child belongs to
  either group, the index is 0. The index is the minimum of the two bounds, so where a
  "before" child precedes an "after" child the upper bound wins.
\<close>

theorem insertion_index_schema_order:
  "(\<forall>j < length (remaining_children sectpr).
       tag (remaining_children sectpr ! j) \<in> before_tags \<longrightarrow> insertion_index sectpr \<le> int j)
   \<and> ((\<forall>k < length (remaining_children sectpr).
          tag (remaining_children sectpr ! k) \<in> before_tags \<longrightarrow>
          (\<forall>j < length (remaining_children sectpr).
             tag (remaining_children sectpr ! j) \<in> after_tags \<longrightarrow> j < k)) \<longrightarrow>
       (\<forall>j < length (remaining_children sectpr).
          tag (remaining_children sectpr ! j) \<in> after_tags \<longrightarrow> int j + 1 \<le> insertion_index sectpr))
   \<and> ((\<forall>c \<in> set (remaining_children sectpr). tag c \<notin> after_tags \<and> tag c \<notin> before_tags) \<longrightarrow>
       insertion_index sectpr = 0)"
proof -
  define cs where "cs = remaining_children sectpr"
  define idx where "idx = insertion_index sectpr"
  have idx: "idx = min (after_loop 0 (- 1) cs + 1) (before_loop 0 (int (length cs)) cs)"
    by (simp add: idx_def insertion_index_def insert_idx_def cs_def)
  have A: "idx \<le> int j" if "j < length cs" "tag (cs ! j) \<in> before_tags" for j
    using before_loop_upper [OF that, where b = "int (length cs)" and i = 0] by (simp add: idx)
  have B: "int j + 1 \<le> idx"
    if ord: "\<forall>k < length cs. tag (cs ! k) \<in> before_tags \<longrightarrow>
               (\<forall>j < length cs. tag (cs ! j) \<in> after_tags \<longrightarrow> j < k)"
      and j: "j < length cs" "tag (cs ! j) \<in> after_tags" for j
  proof -
    from j have "0 + int j \<le> after_loop 0 (- 1) cs"
      by (intro after_loop_member) simp_all
    moreover from ord j have "\<forall>k < length cs. tag (cs ! k) \<in> before_tags \<longrightarrow> j < k"
      by blast
    with j(1) have "0 + int j < before_loop 0 (int (length cs)) cs"
      by (intro before_loop_past) simp_all
    ultimately show ?thesis by (simp add: idx)
  qed
  have C: "idx = 0" if "\<forall>c \<in> set cs. tag c \<notin> after_tags \<and> tag c \<notin> before_tags"
  proof -
    from that have "after_loop 0 (- 1) cs = - 1" by (intro after_loop_none) blast
    moreover from that have "before_loop 0 (int (length cs)) cs = int (length cs)"
      by (intro before_loop_none) blast
    ultimately show ?thesis by (simp add: idx)
  qed
  from A B C show ?thesis unfolding cs_def idx_def by blast
qed

lemmas example_defs = el_def sect_misordered_def sect_ordered_def W_NS_def

lemmas insert_defs = remaining_children_def find_child_def insertion_index_def insert_idx_def
  after_tags_def before_tags_def is_pgBorders_def

text \<open>
  The lower bound does not hold for every element: with the children \<^verbatim>\<open>cols\<close>,
  \<^verbatim>\<open>pgSz\<close> the child at index 1 is in the "after" group and the index computed is 0.
\<close>

theorem insertion_index_after_bound_counterexample:
  "tag (remaining_children sect_misordered ! 1) \<in> after_tags
   \<and> \<not> (int 1 + 1 \<le> insertion_index sect_misordered)"
  by (simp add: example_defs insert_defs)

text \<open>
  An element in schema order that holds a fragment already: \<^verbatim>\<open>pgSz\<close>,
  \<^verbatim>\<open>pgBorders\<close>, \<^verbatim>\<open>pgMar\<close>, \<^verbatim>\<open>cols\<close>. The two bounds meet at 2.
\<close>

theorem insertion_index_schema_order_witness:
  "tag (remaining_children sect_ordered ! 1) \<in> after_tags
   \<and> tag (remaining_children sect_ordered ! 2) \<in> before_tags
   \<and> insertion_index sect_ordered = 2"
proof -
  have rc: "remaining_children sect_ordered = [el ''pgSz'' [], el ''pgMar'' [], el ''cols'' []]"
    by (simp add: example_defs insert_defs)
  have a: "tag (remaining_children sect_ordered ! 1) \<in> after_tags"
    and b: "tag (remaining_children sect_ordered ! 2) \<in> before_tags"
    by (simp_all add: rc) (simp_all add: example_defs insert_defs)
  have ord: "\<forall>k < length (remaining_children sect_ordered).
          tag (remaining_children sect_ordered ! k) \<in> before_tags \<longrightarrow>
          (\<forall>j < length (remaining_children sect_ordered).
             tag (remaining_children sect_ordered ! j) \<in> after_tags \<longrightarrow> j < k)"
    unfolding rc
    by (simp add: All_less_Suc numeral_3_eq_3 nth_Cons') (simp add: example_defs insert_defs)
  have len: "length (remaining_children sect_ordered) = 3" by (simp add: rc)
  note T = insertion_index_schema_order [of sect_ordered]
  from T have T1: "\<forall>j < length (remaining_children sect_ordered).
       tag (remaining_children sect_ordered ! j) \<in> before_tags \<longrightarrow>
       insertion_index sect_ordered \<le> int j"
    by (rule conjunct1)
  note T2 = T [THEN conjunct2, THEN conjunct1, THEN mp, OF ord]
  have "int 1 + 1 \<le> insertion_index sect_ordered"
    using T2 [rule_format, of 1] a by (simp add: len)
  moreover have "insertion_index sect_ordered \<le> int 2"
    using T1 [rule_format, of 2] b by (simp add: len)
  ultimately show ?thesis using a b by simp
qed
section \<open>Repeated insertion\<close>

lemma filter_remove_first:
  "length (filter P (remove_first P xs)) = length (filter P xs) - 1"
  by (induction xs) auto

lemma remove_first_absent: "\<forall>x \<in> set xs. \<not> P x \<Longrightarrow> remove_first P xs = xs"
  by (induction xs) auto

lemma remove_first_inserted:
  "\<forall>y \<in> set xs. \<not> P y \<Longrightarrow> P x \<Longrightarrow> remove_first P (xs @ x # ys) = xs @ ys"
  by (induction xs) auto

lemma py_insert_split: "\<exists>j. py_insert i x xs = take j xs @ x # drop j xs"
  unfolding py_insert_def Let_def by (rule exI) (rule refl)

lemma filter_py_insert:
  "length (filter P (py_insert i x xs)) = length (filter P xs) + (if P x then 1 else 0)"
proof -
  obtain j where j: "py_insert i x xs = take j xs @ x # drop j xs"
    using py_insert_split [of i x xs] by (elim exE)
  have "length (filter P (take j xs @ drop j xs)) = length (filter P xs)"
    by (simp only: append_take_drop_id)
  then have "length (filter P (take j xs)) + length (filter P (drop j xs)) =
      length (filter P xs)"
    by (simp only: filter_append length_append)
  then show ?thesis unfolding j by simp
qed

lemma remove_first_py_insert:
  assumes "\<forall>y \<in> set xs. \<not> P y" and "P x"
  shows "remove_first P (py_insert i x xs) = xs"
proof -
  obtain j where j: "py_insert i x xs = take j xs @ x # drop j xs"
    using py_insert_split [of i x xs] by (elim exE)
  from assms(1) have "\<forall>y \<in> set (take j xs). \<not> P y" by (auto dest: in_set_takeD)
  then have "remove_first P (take j xs @ x # drop j xs) = take j xs @ drop j xs"
    using assms(2) by (rule remove_first_inserted)
  then show ?thesis unfolding j by simp
qed

lemma find_child_pgBorders:
  "find_child (W_NS @ ''pgBorders'') e = None \<longleftrightarrow> (\<forall>c \<in> set (children e). \<not> is_pgBorders c)"
  by (auto simp: find_child_def find_None_iff is_pgBorders_def)

lemma remaining_children_remove:
  "remaining_children sectpr = remove_first is_pgBorders (children sectpr)"
proof (cases "find_child (W_NS @ ''pgBorders'') sectpr")
  case None
  then have "\<forall>c \<in> set (children sectpr). \<not> is_pgBorders c"
    by (simp add: find_child_pgBorders)
  then have "remove_first is_pgBorders (children sectpr) = children sectpr"
    by (rule remove_first_absent)
  with None show ?thesis by (simp add: remaining_children_def)
next
  case (Some existing)
  then show ?thesis by (simp add: remaining_children_def)
qed

lemma remaining_children_clean:
  assumes "length (filter is_pgBorders (children sectpr)) \<le> 1"
  shows "\<forall>c \<in> set (remaining_children sectpr). \<not> is_pgBorders c"
proof -
  have "length (filter is_pgBorders (remaining_children sectpr)) = 0"
    using assms by (simp add: remaining_children_remove filter_remove_first)
  then show ?thesis by (simp add: filter_empty_conv)
qed

lemma children_insert:
  "children (insert_pgBorders_schema_order sectpr frag) =
     py_insert (insert_idx (remaining_children sectpr)) frag (remaining_children sectpr)"
  by (simp add: insert_pgBorders_schema_order_def Let_def deepcopy_id)

lemma count_after_insert:
  assumes "is_pgBorders frag" and "length (filter is_pgBorders (children sectpr)) \<le> 1"
  shows "length (filter is_pgBorders (children (insert_pgBorders_schema_order sectpr frag))) = 1"
proof -
  have "length (filter is_pgBorders (remaining_children sectpr)) = 0"
    using assms(2) by (simp add: remaining_children_remove filter_remove_first)
  with assms(1) show ?thesis
    by (simp only: children_insert filter_py_insert) simp
qed

lemma insert_twice:
  assumes "is_pgBorders frag" and "length (filter is_pgBorders (children sectpr)) \<le> 1"
  shows "insert_pgBorders_schema_order (insert_pgBorders_schema_order sectpr frag) frag =
         insert_pgBorders_schema_order sectpr frag"
proof -
  let ?s = "insert_pgBorders_schema_order sectpr frag"
  have "remaining_children ?s = remaining_children sectpr"
    using remaining_children_clean [OF assms(2)] assms(1)
    by (simp only: remaining_children_remove [of ?s] children_insert remove_first_py_insert)
  then show ?thesis
    by (simp add: insert_pgBorders_schema_order_def Let_def)
qed

lemma insert_repeated:
  assumes "is_pgBorders frag" and "length (filter is_pgBorders (children sectpr)) \<le> 1"
  shows "((\<lambda>s. insert_pgBorders_schema_order s frag) ^^ Suc n) sectpr =
         insert_pgBorders_schema_order sectpr frag"
proof (induction n)
  case 0
  show ?case by simp
next
  case (Suc n)
  then show ?case using insert_twice [OF assms] by simp
qed

text \<open>Whatever the extraction returns is a \<^verbatim>\<open>pgBorders\<close> element.\<close>

lemma extracted_is_pgBorders:
  assumes "extract_pgBorders_tree root = Some pg"
  shows "is_pgBorders pg"
proof -
  have "is_pgBorders c" if "find_child (W_NS @ ''pgBorders'') e = Some c" for e c
    using that by (auto simp: find_child_def find_Some_iff is_pgBorders_def)
  with assms show ?thesis
    by (auto simp: extract_pgBorders_tree_def Let_def split: option.splits if_splits)
qed


text \<open>
  Claim C2. The insertion is applied \<open>n \<ge> 1\<close> times to the same section-properties
  element with the same fragment, a \<^verbatim>\<open>pgBorders\<close> element as the extraction returns
  it (\<open>extracted_is_pgBorders\<close>). If the element had at most one \<^verbatim>\<open>pgBorders\<close> child at the start, it has exactly
  one afterwards; moreover every further application leaves the element as the first
  application made it.
\<close>

theorem insert_pgBorders_idempotent:
  assumes "1 \<le> n" and "is_pgBorders frag"
    and "length (filter is_pgBorders (children sectpr)) \<le> 1"
  shows "length (filter is_pgBorders
           (children (((\<lambda>s. insert_pgBorders_schema_order s frag) ^^ n) sectpr))) = 1
       \<and> ((\<lambda>s. insert_pgBorders_schema_order s frag) ^^ n) sectpr =
           insert_pgBorders_schema_order sectpr frag"
proof -
  from assms(1) obtain m where n: "n = Suc m" by (cases n) auto
  show ?thesis
    unfolding n insert_repeated [OF assms(2,3)]
    using count_after_insert [OF assms(2,3)] by simp
qed

text \<open>Two applications to an element that holds one fragment already.\<close>

theorem insert_pgBorders_idempotent_witness:
  "length (filter is_pgBorders
      (children (((\<lambda>s. insert_pgBorders_schema_order s pg_example) ^^ 2) sect_ordered))) = 1
   \<and> ((\<lambda>s. insert_pgBorders_schema_order s pg_example) ^^ 2) sect_ordered =
       insert_pgBorders_schema_order sect_ordered pg_example"
proof -
  have 1: "(1::nat) \<le> 2" by simp
  have 2: "is_pgBorders pg_example" by (simp add: is_pgBorders_def pg_example_def)
  have 3: "length (filter is_pgBorders (children sect_ordered)) \<le> 1"
    by (simp add: is_pgBorders_def example_defs)
  show ?thesis by (rule insert_pgBorders_idempotent [OF 1 2 3])
qed

section \<open>The extraction rule\<close>

lemmas query_defs = findall_body_sectPr_def findall_p_sectPr_def select_child_def
  select_descendant_def find_child_def

text \<open>
  A document with two paragraph-embedded section properties, of which only the first
  holds a fragment: the code looks at the last one only and extracts nothing, where the
  rule as the specification words it yields the fragment of the first.
\<close>

theorem extract_last_paragraph_counterexample:
  "extract_pgBorders_tree doc_two_breaks = None
   \<and> extract_pgBorders_spec doc_two_breaks = Some pg_example"
  by (simp add: extract_pgBorders_tree_def extract_pgBorders_spec_def doc_two_breaks_def
      pg_example_def query_defs W_NS_def)

lemma last_filter_holds: "xs \<noteq> [] \<Longrightarrow> P (last xs) \<Longrightarrow> last (filter P xs) = last xs"
  by (induction xs rule: rev_induct) auto

lemma last_matching:
  assumes "xs = [] \<or> P (last xs) \<or> (\<forall>s \<in> set xs. \<not> P s)"
    and "\<And>s. \<not> P s \<Longrightarrow> f s = None"
  shows "(case filter P xs of [] \<Rightarrow> None | s # ss \<Rightarrow> f (last (s # ss)))
         = (if xs \<noteq> [] then f (last xs) else None)"
proof (cases "xs = []")
  case True
  then show ?thesis by simp
next
  case False
  show ?thesis
  proof (cases "P (last xs)")
    case True
    with False have "last (filter P xs) = last xs" by (simp add: last_filter_holds)
    moreover from False True have "filter P xs \<noteq> []"
      using last_in_set [of xs] by (auto simp: filter_empty_conv)
    ultimately show ?thesis using False by (cases "filter P xs") auto
  next
    case no: False
    with False assms(1) have "\<forall>s \<in> set xs. \<not> P s" by auto
    then have "filter P xs = []" by (simp add: filter_empty_conv)
    with False no assms(2) show ?thesis by simp
  qed
qed

lemma extract_None_patch:
  "read_document_xml lib fs source = Inr root \<Longrightarrow> extract_pgBorders_tree root = None \<Longrightarrow>
     patch_art_page_borders lib fs source output = (Inr False, fs)"
  by (simp add: patch_art_page_borders_def extract_pgBorders_from_source_def)

lemma extract_agrees:
  assumes "findall_p_sectPr root = []
           \<or> find_child (W_NS @ ''pgBorders'') (last (findall_p_sectPr root)) \<noteq> None
           \<or> (\<forall>s \<in> set (findall_p_sectPr root). find_child (W_NS @ ''pgBorders'') s = None)"
  shows "extract_pgBorders_tree root = extract_pgBorders_spec root"
proof -
  have eq: "(case filter (\<lambda>s. find_child (W_NS @ ''pgBorders'') s \<noteq> None) (findall_p_sectPr root) of
           [] \<Rightarrow> None
         | s # ss \<Rightarrow> find_child (W_NS @ ''pgBorders'') (last (s # ss)))
        = (if findall_p_sectPr root \<noteq> []
           then find_child (W_NS @ ''pgBorders'') (last (findall_p_sectPr root)) else None)"
    using assms by (intro last_matching) simp_all
  show ?thesis
    unfolding extract_pgBorders_tree_def extract_pgBorders_spec_def Let_def eq
    by (rule refl)
qed

text \<open>
  Claim C4, as the code has it. The extraction takes the last section-properties
  element that is a child of a body element and, if it holds a fragment, returns that
  fragment. Otherwise it looks at the last paragraph-embedded section-properties element
  only, and returns its fragment if it holds one, nothing if it does not or if there is
  no such element. This is the rule of the specification whenever the last
  paragraph-embedded element holds a fragment or none of them does. When the extraction
  returns nothing, the patch returns false and leaves the file system as it was.
\<close>

theorem extract_pgBorders_rule:
  "(findall_body_sectPr root \<noteq> [] \<and>
      find_child (W_NS @ ''pgBorders'') (last (findall_body_sectPr root)) \<noteq> None \<longrightarrow>
      extract_pgBorders_tree root =
        find_child (W_NS @ ''pgBorders'') (last (findall_body_sectPr root)))
   \<and> (findall_body_sectPr root = [] \<or>
      find_child (W_NS @ ''pgBorders'') (last (findall_body_sectPr root)) = None \<longrightarrow>
      extract_pgBorders_tree root =
        (if findall_p_sectPr root \<noteq> []
         then find_child (W_NS @ ''pgBorders'') (last (findall_p_sectPr root)) else None))
   \<and> (findall_p_sectPr root = []
      \<or> find_child (W_NS @ ''pgBorders'') (last (findall_p_sectPr root)) \<noteq> None
      \<or> (\<forall>s \<in> set (findall_p_sectPr root). find_child (W_NS @ ''pgBorders'') s = None) \<longrightarrow>
      extract_pgBorders_tree root = extract_pgBorders_spec root)
   \<and> (read_document_xml lib fs source_docx = Inr root \<and> extract_pgBorders_tree root = None \<longrightarrow>
      patch_art_page_borders lib fs source_docx output_docx = (Inr False, fs))"
proof (intro conjI impI)
  assume "findall_body_sectPr root \<noteq> [] \<and>
      find_child (W_NS @ ''pgBorders'') (last (findall_body_sectPr root)) \<noteq> None"
  then show "extract_pgBorders_tree root =
        find_child (W_NS @ ''pgBorders'') (last (findall_body_sectPr root))"
    by (auto simp: extract_pgBorders_tree_def Let_def)
next
  assume "findall_body_sectPr root = [] \<or>
      find_child (W_NS @ ''pgBorders'') (last (findall_body_sectPr root)) = None"
  then show "extract_pgBorders_tree root =
        (if findall_p_sectPr root \<noteq> []
         then find_child (W_NS @ ''pgBorders'') (last (findall_p_sectPr root)) else None)"
    by (auto simp: extract_pgBorders_tree_def Let_def)
next
  assume "findall_p_sectPr root = []
      \<or> find_child (W_NS @ ''pgBorders'') (last (findall_p_sectPr root)) \<noteq> None
      \<or> (\<forall>s \<in> set (findall_p_sectPr root). find_child (W_NS @ ''pgBorders'') s = None)"
  then show "extract_pgBorders_tree root = extract_pgBorders_spec root"
    by (rule extract_agrees)
next
  assume "read_document_xml lib fs source_docx = Inr root \<and> extract_pgBorders_tree root = None"
  then show "patch_art_page_borders lib fs source_docx output_docx = (Inr False, fs)"
    by (simp add: extract_None_patch)
qed

text \<open>
  A source whose last body-level section properties hold the fragment, and a document
  without any section properties, for which the patch returns false.
\<close>

theorem extract_pgBorders_rule_witness:
  "extract_pgBorders_tree doc_source = Some pg_example
   \<and> extract_pgBorders_tree doc_source = extract_pgBorders_spec doc_source
   \<and> extract_pgBorders_tree doc_plain = None
   \<and> patch_art_page_borders lib_example fs_example ''plain.docx'' ''output.docx''
       = (Inr False, fs_example)"
proof -
  note S = extract_pgBorders_rule [where root = doc_source and lib = lib_example
      and fs = fs_example and source_docx = "''source.docx''" and output_docx = "''output.docx''"]
  note P = extract_pgBorders_rule [where root = doc_plain and lib = lib_example
      and fs = fs_example and source_docx = "''plain.docx''" and output_docx = "''output.docx''"]
  have v: "find_child (W_NS @ ''pgBorders'') (last (findall_body_sectPr doc_source))
      = Some pg_example"
    by (simp add: doc_source_def pg_example_def query_defs example_defs)
  have c: "findall_body_sectPr doc_source \<noteq> []"
    by (simp add: doc_source_def pg_example_def query_defs example_defs)
  have ps: "findall_p_sectPr doc_source = []"
    by (simp add: doc_source_def pg_example_def query_defs example_defs)
  have pb: "findall_body_sectPr doc_plain = []"
    by (simp add: doc_plain_def query_defs example_defs)
  have pp: "findall_p_sectPr doc_plain = []"
    by (simp add: doc_plain_def query_defs example_defs)
  have rd: "read_document_xml lib_example fs_example ''plain.docx'' = Inr doc_plain"
    by (simp add: read_document_xml_def fs_example_def zread_def lib_example_def)
  from S [THEN conjunct1] have 1: "extract_pgBorders_tree doc_source = Some pg_example"
    by (simp add: c v)
  from S [THEN conjunct2, THEN conjunct2, THEN conjunct1]
  have 2: "extract_pgBorders_tree doc_source = extract_pgBorders_spec doc_source"
    by (simp add: ps)
  from P [THEN conjunct2, THEN conjunct1]
  have 3: "extract_pgBorders_tree doc_plain = None"
    by (simp add: pb pp)
  from P [THEN conjunct2, THEN conjunct2, THEN conjunct2] rd 3
  have 4: "patch_art_page_borders lib_example fs_example ''plain.docx'' ''output.docx''
       = (Inr False, fs_example)"
    by simp
  from 1 2 3 4 show ?thesis by (intro conjI)
qed

section \<open>Trees without section properties\<close>







section \<open>Writing the archive\<close>








section \<open>The result of the patch\<close>








section \<open>When the patch returns false\<close>









section \<open>The rewrite of the package\<close>





section \<open>The trace grows\<close>

lemma trace_invoke: "trace (snd (invoke com c w)) = trace w @ [(c, fst (invoke com c w))]"
  by (simp add: invoke_def split: prod.splits)

lemma trace_must: "\<exists>r. trace (snd (must com c w)) = trace w @ [(c, r)]"
  using trace_invoke [of com c w] by (auto simp: must_def split: prod.splits)

lemma emitsI:
  "(\<And>w. \<exists>ev. trace (snd (m w)) = trace w @ ev \<and> (\<forall>e \<in> set ev. P e)) \<Longrightarrow> emits P m"
  by (simp add: emits_def)

lemma emitsD:
  "emits P m \<Longrightarrow> \<exists>ev. trace (snd (m w)) = trace w @ ev \<and> (\<forall>e \<in> set ev. P e)"
  by (simp add: emits_def)

lemma emits_invoke: "(\<And>r. P (c, r)) \<Longrightarrow> emits P (invoke com c)"
proof (rule emitsI)
  fix w
  assume "\<And>r. P (c, r)"
  then show "\<exists>ev. trace (snd (invoke com c w)) = trace w @ ev \<and> (\<forall>e \<in> set ev. P e)"
    using trace_invoke [of com c w] by auto
qed

lemma emits_must: "(\<And>r. P (c, r)) \<Longrightarrow> emits P (must com c)"
proof (rule emitsI)
  fix w
  assume "\<And>r. P (c, r)"
  then show "\<exists>ev. trace (snd (must com c w)) = trace w @ ev \<and> (\<forall>e \<in> set ev. P e)"
    using trace_must [of com c w] by auto
qed

lemma emits_return: "emits P (\<lambda>w. (x, w))"
  by (simp add: emits_def)

lemma emits_and_then:
  assumes "emits P m" and "\<And>x. emits P (f x)"
  shows "emits P (and_then m f)"
proof (rule emitsI)
  fix w
  obtain r w1 where m: "m w = (r, w1)" by (cases "m w")
  from emitsD [OF assms(1), of w] m obtain ev1
    where ev1: "trace w1 = trace w @ ev1" "\<forall>e \<in> set ev1. P e" by auto
  show "\<exists>ev. trace (snd (and_then m f w)) = trace w @ ev \<and> (\<forall>e \<in> set ev. P e)"
  proof (cases r)
    case (Inl e)
    with m ev1 show ?thesis by (auto simp: and_then_def)
  next
    case (Inr x)
    from emitsD [OF assms(2), of x w1] obtain ev2
      where ev2: "trace (snd (f x w1)) = trace w1 @ ev2" "\<forall>e \<in> set ev2. P e" by auto
    from Inr m have "and_then m f w = f x w1" by (simp add: and_then_def)
    with ev1 ev2 have "trace (snd (and_then m f w)) = trace w @ (ev1 @ ev2)"
      and "\<forall>e \<in> set (ev1 @ ev2). P e" by auto
    then show ?thesis by blast
  qed
qed

lemma emits_save_docx:
  assumes "\<And>r. P (SaveCopyAs d path 12, r)" and "\<And>r. P (SaveAs2 d path 12, r)"
    and "\<And>r. P (SaveAs d path 12, r)"
  shows "emits P (save_docx com d path)"
proof -
  have eq: "snd (save_docx com d path w) =
      (let w1 = snd (invoke com (SaveCopyAs d path 12) w)
       in if fst (invoke com (SaveCopyAs d path 12) w) \<noteq> Raised then w1
          else let w2 = snd (invoke com (SaveAs2 d path 12) w1)
               in if fst (invoke com (SaveAs2 d path 12) w1) \<noteq> Raised then w2
                  else snd (invoke com (SaveAs d path 12) w2))" for w
    by (simp add: save_docx_def Let_def split: prod.splits)
  show ?thesis
  proof (rule emitsI)
    fix w
    let ?w1 = "snd (invoke com (SaveCopyAs d path 12) w)"
    let ?w2 = "snd (invoke com (SaveAs2 d path 12) ?w1)"
    let ?w3 = "snd (invoke com (SaveAs d path 12) ?w2)"
    from emitsD [OF emits_invoke [of P, OF assms(1)], of com w] obtain e1
      where e1: "trace ?w1 = trace w @ e1" "\<forall>e \<in> set e1. P e" by auto
    from emitsD [OF emits_invoke [of P, OF assms(2)], of com ?w1] obtain e2
      where e2: "trace ?w2 = trace ?w1 @ e2" "\<forall>e \<in> set e2. P e" by auto
    from emitsD [OF emits_invoke [of P, OF assms(3)], of com ?w2] obtain e3
      where e3: "trace ?w3 = trace ?w2 @ e3" "\<forall>e \<in> set e3. P e" by auto
    from e1 e2 have t2: "trace ?w2 = trace w @ (e1 @ e2)" "\<forall>e \<in> set (e1 @ e2). P e" by auto
    from t2 e3 have t3: "trace ?w3 = trace w @ (e1 @ e2 @ e3)" "\<forall>e \<in> set (e1 @ e2 @ e3). P e"
      by auto
    consider "snd (save_docx com d path w) = ?w1" | "snd (save_docx com d path w) = ?w2"
      | "snd (save_docx com d path w) = ?w3"
      unfolding eq Let_def by presburger
    then show "\<exists>ev. trace (snd (save_docx com d path w)) = trace w @ ev \<and> (\<forall>e \<in> set ev. P e)"
    proof cases
      case 1 with e1 show ?thesis by metis
    next
      case 2 with t2 show ?thesis by metis
    next
      case 3 with t3 show ?thesis by metis
    qed
  qed
qed

lemma events_since_append: "trace w' = trace w @ ev \<Longrightarrow> events_since w w' = ev"
  by (simp add: events_since_def)

section \<open>The template snapshot\<close>

lemma os_remove_cases:
  "snd (os_remove os path w) =
     (if files w path \<noteq> None \<and> \<not> remove_refused os (hstate w) (files w) path
      then w\<lparr>files := (files w)(path := None)\<rparr> else w)"
  by (simp add: os_remove_def split: option.splits)

lemma try_finally_attempt:
  "try_finally body (attempt cleanup) w = (fst (body w), snd (cleanup (snd (body w))))"
  by (simp add: try_finally_def attempt_def split: prod.splits)

lemma copy_styles_via_template_unfold:
  "copy_styles_via_template os com w =
     (fst (snapshot_and_apply com (tempdir_join os ''style_source_tmp.dotx'') w),
      snd (os_remove os (tempdir_join os ''style_source_tmp.dotx'')
             (snd (snapshot_and_apply com (tempdir_join os ''style_source_tmp.dotx'') w))))"
  by (simp add: copy_styles_via_template_def Let_def try_finally_attempt)

text \<open>
  Claim C7, as the code has it. \<^verbatim>\<open>copy_styles_via_template\<close> attempts the removal of
  the snapshot on every exit path: its outcome is that of saving and applying the
  snapshot, success or error, and its final state is the state after the removal was
  tried. Where the operating system does not refuse the removal, the snapshot file does
  not exist afterwards. Where it refuses, the failure is ignored and the state is the
  one that saving and applying left, the snapshot with it.
\<close>

theorem template_snapshot_removed:
  "fst (copy_styles_via_template os com w)
     = fst (snapshot_and_apply com (tempdir_join os ''style_source_tmp.dotx'') w)
   \<and> (\<not> remove_refused os
           (hstate (snd (snapshot_and_apply com (tempdir_join os ''style_source_tmp.dotx'') w)))
           (files (snd (snapshot_and_apply com (tempdir_join os ''style_source_tmp.dotx'') w)))
           (tempdir_join os ''style_source_tmp.dotx'') \<longrightarrow>
        files (snd (copy_styles_via_template os com w))
          (tempdir_join os ''style_source_tmp.dotx'') = None)
   \<and> (remove_refused os
           (hstate (snd (snapshot_and_apply com (tempdir_join os ''style_source_tmp.dotx'') w)))
           (files (snd (snapshot_and_apply com (tempdir_join os ''style_source_tmp.dotx'') w)))
           (tempdir_join os ''style_source_tmp.dotx'') \<longrightarrow>
        snd (copy_styles_via_template os com w)
          = snd (snapshot_and_apply com (tempdir_join os ''style_source_tmp.dotx'') w))"
  by (simp add: copy_styles_via_template_unfold os_remove_cases)

lemmas template_defs = copy_styles_via_template_def snapshot_and_apply_def try_finally_def
  attempt_def os_remove_def and_then_def must_def invoke_def save_docx_def world_example_def
  Let_def

text \<open>
  Where the operating system refuses the removal the snapshot stays, after the exit on
  which the template was applied and after the exit on which applying it raised.
\<close>

theorem template_snapshot_stays_counterexample:
  "fst (copy_styles_via_template os_locked (com_example False) world_example) = Inr ()
   \<and> files (snd (copy_styles_via_template os_locked (com_example False) world_example))
        ''/tmp/style_source_tmp.dotx'' = Some []
   \<and> fst (copy_styles_via_template os_locked com_template_fails world_example) = Inl ComError
   \<and> files (snd (copy_styles_via_template os_locked com_template_fails world_example))
        ''/tmp/style_source_tmp.dotx'' = Some []"
  by (simp add: template_defs os_locked_def com_template_fails_def com_example_def)

text \<open>
  Both exits on the example host, with an operating system that removes the file. The
  host creates the snapshot when asked to save it; in the first run the template is
  applied and the operation returns, in the second applying it raises and the error
  propagates; the snapshot is gone after both.
\<close>

theorem template_snapshot_removed_witness:
  "files (snd (invoke (com_example False) (SaveCopyAs Src ''/tmp/style_source_tmp.dotx'' 16)
            world_example)) ''/tmp/style_source_tmp.dotx'' = Some []
   \<and> fst (copy_styles_via_template os_example (com_example False) world_example) = Inr ()
   \<and> files (snd (copy_styles_via_template os_example (com_example False) world_example))
        ''/tmp/style_source_tmp.dotx'' = None
   \<and> fst (copy_styles_via_template os_example com_template_fails world_example) = Inl ComError
   \<and> files (snd (copy_styles_via_template os_example com_template_fails world_example))
        ''/tmp/style_source_tmp.dotx'' = None"
proof -
  have tmp: "tempdir_join os_example ''style_source_tmp.dotx'' = ''/tmp/style_source_tmp.dotx''"
    by (simp add: os_example_def)
  have free: "\<not> remove_refused os_example h fs path" for h fs path
    by (simp add: os_example_def)
  have 1: "files (snd (invoke (com_example False) (SaveCopyAs Src ''/tmp/style_source_tmp.dotx'' 16)
            world_example)) ''/tmp/style_source_tmp.dotx'' = Some []"
    by (simp add: invoke_def com_example_def world_example_def)
  have 2: "fst (copy_styles_via_template os_example (com_example False) world_example) = Inr ()"
    by (simp add: template_defs os_example_def com_example_def)
  have 4: "fst (copy_styles_via_template os_example com_template_fails world_example)
      = Inl ComError"
    by (simp add: template_defs os_example_def com_template_fails_def com_example_def)
  note 3 = template_snapshot_removed [of os_example "com_example False" world_example,
      THEN conjunct2, THEN conjunct1, THEN mp, OF free, unfolded tmp]
  note 5 = template_snapshot_removed [of os_example com_template_fails world_example,
      THEN conjunct2, THEN conjunct1, THEN mp, OF free, unfolded tmp]
  from 1 2 3 4 5 show ?thesis by (intro conjI)
qed

section \<open>Missing input files\<close>

text \<open>
  Claim C9. If the source path or the target path, once normalised, does not name an
  existing file, the pipeline fails with \<^verbatim>\<open>FileNotFoundError\<close> for the first such path
  and the world is as it was: no call has been made to the host (the trace is
  unchanged) and no file has changed.
\<close>

theorem transfer_layout_missing_input:
  assumes "files w (abspath_expanduser os source_docx) = None
           \<or> files w (abspath_expanduser os target_docx) = None"
  shows "transfer_layout os lib com source_docx target_docx output_docx visible section_map w =
           (Inl (FileNotFoundError
                   (if files w (abspath_expanduser os source_docx) = None
                    then abspath_expanduser os source_docx
                    else abspath_expanduser os target_docx)), w)"
  using assms by (auto simp: transfer_layout_def Let_def)

text \<open>The example world has the source but no file \<^verbatim>\<open>missing.docx\<close>.\<close>

theorem transfer_layout_missing_input_witness:
  "transfer_layout os_example lib_example (com_example True) ''source.docx'' ''missing.docx''
     ''result.docx'' False True world_example
   = (Inl (FileNotFoundError ''missing.docx''), world_example)
   \<and> trace world_example = []"
proof -
  have s: "files world_example (abspath_expanduser os_example ''source.docx'') \<noteq> None"
    by (simp add: world_example_def os_example_def fs_example_def)
  have t: "files world_example (abspath_expanduser os_example ''missing.docx'') = None"
    by (simp add: world_example_def os_example_def fs_example_def)
  from t have "files world_example (abspath_expanduser os_example ''source.docx'') = None
      \<or> files world_example (abspath_expanduser os_example ''missing.docx'') = None" ..
  from transfer_layout_missing_input [OF this, of lib_example "com_example True" "''result.docx''"
      False True] s
  have "transfer_layout os_example lib_example (com_example True) ''source.docx'' ''missing.docx''
     ''result.docx'' False True world_example
   = (Inl (FileNotFoundError (abspath_expanduser os_example ''missing.docx'')), world_example)"
    by simp
  then show ?thesis by (simp add: os_example_def world_example_def)
qed

section \<open>Counting the copies\<close>

lemma style_name_trace:
  "\<exists>ev. trace (snd (style_name com k w)) = trace w @ ev
        \<and> (\<forall>e \<in> set ev. \<exists>a. fst e = StyleAttr k a)"
proof -
  let ?i1 = "invoke com (StyleAttr k ''NameLocal'') w"
  let ?i2 = "invoke com (StyleAttr k ''Name'') (snd ?i1)"
  have t1: "trace (snd ?i1) = trace w @ [(StyleAttr k ''NameLocal'', fst ?i1)]"
    by (rule trace_invoke)
  have "trace (snd ?i2) = trace (snd ?i1) @ [(StyleAttr k ''Name'', fst ?i2)]"
    by (rule trace_invoke)
  with t1 have t2: "trace (snd ?i2) =
      trace w @ [(StyleAttr k ''NameLocal'', fst ?i1), (StyleAttr k ''Name'', fst ?i2)]"
    by simp
  have "snd (style_name com k w) = snd ?i1 \<or> snd (style_name com k w) = snd ?i2"
    by (simp add: style_name_def Let_def split: prod.splits)
  then show ?thesis
  proof
    assume "snd (style_name com k w) = snd ?i1"
    with t1 show ?thesis by auto
  next
    assume "snd (style_name com k w) = snd ?i2"
    with t2 show ?thesis by auto
  qed
qed

lemma organizer_loop_trace:
  "\<exists>ev. trace (snd (organizer_loop com dst ks moved w)) = trace w @ ev
        \<and> fst (organizer_loop com dst ks moved w) = moved + int (length (filter copied ev))
        \<and> (\<forall>e \<in> set ev. \<not> fallback_entry os e)"
proof (induction ks arbitrary: moved w)
  case Nil
  show ?case by simp
next
  case (Cons k ks)
  obtain name w1 where sn: "style_name com k w = (name, w1)" by (cases "style_name com k w")
  from style_name_trace [of com k w] sn obtain ev1
    where ev1: "trace w1 = trace w @ ev1" "\<forall>e \<in> set ev1. \<exists>a. fst e = StyleAttr k a"
    by auto
  from ev1(2) have c1: "filter copied ev1 = []"
    by (auto simp: filter_empty_conv copied_def)
  from ev1(2) have f1: "\<forall>e \<in> set ev1. \<not> fallback_entry os e"
    by (auto simp: fallback_entry_def)
  show ?case
  proof (cases "name = None \<or> name = Some []")
    case True
    with sn have eq: "organizer_loop com dst (k # ks) moved w = organizer_loop com dst ks moved w1"
      by simp
    from Cons.IH [of moved w1] obtain ev2
      where ev2: "trace (snd (organizer_loop com dst ks moved w1)) = trace w1 @ ev2"
        "fst (organizer_loop com dst ks moved w1) = moved + int (length (filter copied ev2))"
        "\<forall>e \<in> set ev2. \<not> fallback_entry os e"
      by auto
    from ev1 ev2 c1 f1 have
      "trace (snd (organizer_loop com dst ks moved w1)) = trace w @ (ev1 @ ev2)"
      "fst (organizer_loop com dst ks moved w1) = moved + int (length (filter copied (ev1 @ ev2)))"
      "\<forall>e \<in> set (ev1 @ ev2). \<not> fallback_entry os e"
      by auto
    then show ?thesis unfolding eq by blast
  next
    case False
    let ?c = "OrganizerCopy dst (the name)"
    obtain r w2 where iv: "invoke com ?c w1 = (r, w2)" by (cases "invoke com ?c w1")
    let ?m = "if r \<noteq> Raised then moved + 1 else moved"
    from False sn iv
    have eq: "organizer_loop com dst (k # ks) moved w = organizer_loop com dst ks ?m w2"
      by auto
    from trace_invoke [of com ?c w1] iv have t2: "trace w2 = trace w1 @ [(?c, r)]" by simp
    have cr: "filter copied [(?c, r)] = (if r \<noteq> Raised then [(?c, r)] else [])"
      by (simp add: copied_def)
    have fr: "\<not> fallback_entry os (?c, r)" by (simp add: fallback_entry_def)
    from Cons.IH [of ?m w2] obtain ev3
      where ev3: "trace (snd (organizer_loop com dst ks ?m w2)) = trace w2 @ ev3"
        "fst (organizer_loop com dst ks ?m w2) = ?m + int (length (filter copied ev3))"
        "\<forall>e \<in> set ev3. \<not> fallback_entry os e"
      by auto
    let ?ev = "ev1 @ (?c, r) # ev3"
    from ev1 t2 ev3(1) have A: "trace (snd (organizer_loop com dst ks ?m w2)) = trace w @ ?ev"
      by simp
    from c1 cr ev3(2)
    have B: "fst (organizer_loop com dst ks ?m w2) = moved + int (length (filter copied ?ev))"
      by (simp split: if_splits)
    from f1 fr ev3(3) have C: "\<forall>e \<in> set ?ev. \<not> fallback_entry os e" by auto
    from A B C show ?thesis unfolding eq by blast
  qed
qed

lemma try_organizer_trace:
  assumes "try_organizer_copy_all_styles com dst w = (Inr moved, w1)"
  shows "\<exists>ev. trace w1 = trace w @ ev \<and> moved = int (length (filter copied ev))
             \<and> (\<forall>e \<in> set ev. \<not> fallback_entry os e)"
proof -
  obtain ra wa where a: "must com GetApplication w = (ra, wa)"
    by (cases "must com GetApplication w")
  obtain rb wb where b: "must com Styles wa = (rb, wb)" by (cases "must com Styles wa")
  from trace_must [of com GetApplication w] a obtain r1
    where ta: "trace wa = trace w @ [(GetApplication, r1)]" by auto
  from trace_must [of com Styles wa] b obtain r2
    where tb: "trace wb = trace wa @ [(Styles, r2)]" by auto
  from assms a b obtain n where n: "rb = Inr (Number n)"
    and loop: "organizer_loop com dst [1..n] 0 wb = (moved, w1)"
    by (auto simp: try_organizer_copy_all_styles_def and_then_def
        split: sum.splits reply.splits prod.splits)
  from organizer_loop_trace [of com dst "[1..n]" 0 wb os] loop obtain ev
    where ev: "trace w1 = trace wb @ ev" "moved = 0 + int (length (filter copied ev))"
      "\<forall>e \<in> set ev. \<not> fallback_entry os e"
    by auto
  let ?ev = "(GetApplication, r1) # (Styles, r2) # ev"
  from ta tb ev(1) have "trace w1 = trace w @ ?ev" by simp
  moreover from ev(2) have "moved = int (length (filter copied ?ev))"
    by (simp add: copied_def)
  moreover from ev(3) have "\<forall>e \<in> set ?ev. \<not> fallback_entry os e"
    by (simp add: fallback_entry_def)
  ultimately show ?thesis by blast
qed

lemma and_then_trace:
  assumes "\<And>x w'. \<exists>ev. trace (snd (f x w')) = trace w' @ ev"
  shows "\<exists>ev. trace (snd (and_then m f w)) = trace (snd (m w)) @ ev"
proof (cases "m w")
  case (Pair r w1)
  show ?thesis
  proof (cases r)
    case (Inl e)
    with Pair show ?thesis by (simp add: and_then_def)
  next
    case (Inr x)
    with Pair assms [of x w1] show ?thesis by (simp add: and_then_def)
  qed
qed

lemma template_entry_trace:
  "\<exists>r ev. trace (snd (copy_styles_via_template os com w)) =
            trace w @ (SaveCopyAs Src (tempdir_join os ''style_source_tmp.dotx'') 16, r) # ev"
proof -
  let ?tmp = "tempdir_join os ''style_source_tmp.dotx''"
  let ?c = "SaveCopyAs Src ?tmp 16"
  define start :: "('a, unit) action" where "start = (\<lambda>w. case invoke com ?c w of
      (r, w1) \<Rightarrow> if r \<noteq> Raised then (Inr (), w1) else save_docx com Src ?tmp w1)"
  define rest :: "unit \<Rightarrow> ('a, unit) action"
    where "rest = (\<lambda>u. and_then (must com (CopyStylesFromTemplate ?tmp)) (\<lambda>r w. (Inr (), w)))"
  obtain r w1 where iv: "invoke com ?c w = (r, w1)" by (cases "invoke com ?c w")
  from trace_invoke [of com ?c w] iv have t1: "trace w1 = trace w @ [(?c, r)]" by simp
  have "emits (\<lambda>e. True) (save_docx com Src ?tmp)" by (rule emits_save_docx) simp_all
  from emitsD [OF this, of w1] obtain e2
    where e2: "trace (snd (save_docx com Src ?tmp w1)) = trace w1 @ e2" by auto
  have "snd (start w) = w1 \<or> snd (start w) = snd (save_docx com Src ?tmp w1)"
    by (simp add: start_def iv)
  with t1 e2 obtain e3 where e3: "trace (snd (start w)) = trace w @ (?c, r) # e3"
    by auto
  have "emits (\<lambda>e. True) (rest u)" for u
    unfolding rest_def by (intro emits_and_then emits_must emits_return) simp_all
  then have R: "\<exists>ev. trace (snd (rest u w')) = trace w' @ ev" for u w'
    using emitsD [of "\<lambda>e. True" "rest u" w'] by auto
  have "\<exists>ev. trace (snd (and_then start rest w)) = trace (snd (start w)) @ ev"
    using R by (rule and_then_trace)
  with e3 obtain e4 where e4: "trace (snd (and_then start rest w)) = trace w @ (?c, r) # e4"
    by auto
  have "trace (snd (os_remove os ?tmp w')) = trace w'" for w' :: "'a world"
    by (simp add: os_remove_def split: option.splits)
  then have "trace (snd (copy_styles_via_template os com w)) =
      trace (snd (and_then start rest w))"
    by (simp add: copy_styles_via_template_def snapshot_and_apply_def Let_def
        try_finally_attempt start_def rest_def)
  with e4 have "trace (snd (copy_styles_via_template os com w)) = trace w @ (?c, r) # e4"
    by simp
  then show ?thesis by (intro exI)
qed

text \<open>
  Claim C6. Let the loop over the styles of the source return \<open>moved\<close>. Then \<open>moved\<close>
  is the number of calls \<^verbatim>\<open>OrganizerCopy\<close> that did not raise; the block that copies
  the styles enters \<^verbatim>\<open>copy_styles_via_template\<close> exactly when \<open>moved\<close> is zero (its
  first call to the host is in the trace if and only if no named copy succeeded); with
  \<open>moved\<close> zero the block is the template fallback, and otherwise it ends where the loop
  ended, without another call to the host.
\<close>

theorem fallback_iff_nothing_copied:
  assumes "try_organizer_copy_all_styles com output_docx w = (Inr moved, w1)"
  shows "moved = int (length (filter copied (events_since w w1)))
       \<and> (filter (fallback_entry os) (events_since w (snd (copy_styles os com output_docx w))) \<noteq> [])
         = (moved = 0)
       \<and> (moved = 0 \<longrightarrow>
            copy_styles os com output_docx w = copy_styles_via_template os com w1)
       \<and> (moved \<noteq> 0 \<longrightarrow> copy_styles os com output_docx w = (Inr (), w1))"
proof -
  from try_organizer_trace [OF assms, of os] obtain ev
    where ev: "trace w1 = trace w @ ev" "moved = int (length (filter copied ev))"
      "\<forall>e \<in> set ev. \<not> fallback_entry os e"
    by auto
  from ev(1) have since: "events_since w w1 = ev" by (rule events_since_append)
  from ev(3) have none: "filter (fallback_entry os) ev = []" by (simp add: filter_empty_conv)
  have zero: "copy_styles os com output_docx w = copy_styles_via_template os com w1"
    if "moved = 0"
    using assms that by (simp add: copy_styles_def and_then_def)
  have pos: "copy_styles os com output_docx w = (Inr (), w1)" if "moved \<noteq> 0"
    using assms that by (simp add: copy_styles_def and_then_def)
  have "(filter (fallback_entry os) (events_since w (snd (copy_styles os com output_docx w))) \<noteq> [])
         = (moved = 0)"
  proof (cases "moved = 0")
    case True
    from template_entry_trace [of os com w1] obtain r ev'
      where "trace (snd (copy_styles_via_template os com w1)) =
          trace w1 @ (SaveCopyAs Src (tempdir_join os ''style_source_tmp.dotx'') 16, r) # ev'"
      by auto
    with ev(1) zero [OF True]
    have "trace (snd (copy_styles os com output_docx w)) =
        trace w @ (ev @ (SaveCopyAs Src (tempdir_join os ''style_source_tmp.dotx'') 16, r) # ev')"
      by simp
    then have "events_since w (snd (copy_styles os com output_docx w)) =
        ev @ (SaveCopyAs Src (tempdir_join os ''style_source_tmp.dotx'') 16, r) # ev'"
      by (rule events_since_append)
    with True show ?thesis by (simp add: fallback_entry_def)
  next
    case False
    with pos since none show ?thesis by simp
  qed
  with since ev(2) zero pos show ?thesis by simp
qed

lemma upto_1_2: "[1..2] = [1, 2::int]"
  by (simp add: upto.simps)

lemmas host_defs = try_organizer_copy_all_styles_def and_then_def must_def invoke_def
  com_example_def world_example_def style_name_def

lemma organizer_example_ok:
  "fst (try_organizer_copy_all_styles (com_example True) ''output.docx'' world_example) = Inr 2"
  by (simp add: host_defs upto_1_2)

lemma organizer_example_fail:
  "fst (try_organizer_copy_all_styles (com_example False) ''output.docx'' world_example) = Inr 0"
  by (simp add: host_defs upto_1_2)

text \<open>
  The example host with the copy of named styles working, then failing: in the first run
  two styles are copied and the fallback is not entered, in the second none and it is.
\<close>

theorem fallback_iff_nothing_copied_witness:
  "filter (fallback_entry os_example)
     (events_since world_example
        (snd (copy_styles os_example (com_example True) ''output.docx'' world_example))) = []
   \<and> filter (fallback_entry os_example)
     (events_since world_example
        (snd (copy_styles os_example (com_example False) ''output.docx'' world_example))) \<noteq> []"
proof -
  let ?ok = "try_organizer_copy_all_styles (com_example True) ''output.docx'' world_example"
  let ?no = "try_organizer_copy_all_styles (com_example False) ''output.docx'' world_example"
  from organizer_example_ok have "?ok = (Inr 2, snd ?ok)" by (simp add: prod_eq_iff)
  from fallback_iff_nothing_copied [OF this, of os_example, THEN conjunct2, THEN conjunct1]
  have 1: "filter (fallback_entry os_example)
     (events_since world_example
        (snd (copy_styles os_example (com_example True) ''output.docx'' world_example))) = []"
    by simp
  from organizer_example_fail have "?no = (Inr 0, snd ?no)" by (simp add: prod_eq_iff)
  from fallback_iff_nothing_copied [OF this, of os_example, THEN conjunct2, THEN conjunct1]
  have 2: "filter (fallback_entry os_example)
     (events_since world_example
        (snd (copy_styles os_example (com_example False) ''output.docx'' world_example))) \<noteq> []"
    by simp
  from 1 2 show ?thesis ..
qed


section \<open>The source section of a target section\<close>






section \<open>Copies in the store\<close>

lemma repr_frame:
  assumes "\<And>i. lo \<le> i \<Longrightarrow> i < hi \<Longrightarrow> i < length s \<Longrightarrow> i < length s' \<and> s' ! i = s ! i"
  shows "repr lo hi s a t \<Longrightarrow> repr lo hi s' a t"
proof (induction t arbitrary: a)
  case (Element tg atts tx ta cs)
  from Element.prems have a: "lo \<le> a" "a < hi" "a < length s"
    and kids: "list_all2 (repr lo hi s) (nchildren (s ! a)) cs"
    by simp_all
  from assms [OF a] have same: "a < length s'" "s' ! a = s ! a" by simp_all
  from kids have "list_all2 (repr lo hi s') (nchildren (s ! a)) cs"
    by (rule list.rel_mono_strong) (rule Element.IH)
  with Element.prems a same show ?case by simp
qed

lemma repr_mono:
  assumes "lo' \<le> lo" and "hi \<le> hi'"
  shows "repr lo hi s a t \<Longrightarrow> repr lo' hi' s a t"
proof (induction t arbitrary: a)
  case (Element tg atts tx ta cs)
  from Element.prems have kids: "list_all2 (repr lo hi s) (nchildren (s ! a)) cs"
    by simp
  then have "list_all2 (repr lo' hi' s) (nchildren (s ! a)) cs"
    by (rule list.rel_mono_strong) (rule Element.IH)
  with Element.prems assms show ?case by simp
qed

lemma foldr_max_upper: "x \<in> set xs \<Longrightarrow> x \<le> foldr max xs (0::nat)"
  by (induction xs) (auto simp: max_def)

lemma depth_child:
  "c \<in> set cs \<Longrightarrow> depth c < depth (Element tg atts tx ta cs)"
  using foldr_max_upper [of "depth c" "map depth cs"] by simp

text \<open>
  The loop over the children, given that copies one call deeper are correct: the copies
  are appended to the children of the new element, every other object stays as it is,
  and each copy stands for the tree of its original, in addresses that did not exist
  before the loop.
\<close>

lemma copy_children_correct:
  assumes D: "\<And>t s a. depth t \<le> fuel \<Longrightarrow> repr 0 (length s) s a t \<Longrightarrow>
      \<exists>s'. deepcopy_at fuel s a = Some (length s, s') \<and> length s < length s'
            \<and> (\<forall>i < length s. s' ! i = s ! i)
            \<and> repr (length s) (length s') s' (length s) t"
  shows "list_all2 (repr 0 new s) cs ts \<Longrightarrow> \<forall>t \<in> set ts. depth t \<le> fuel \<Longrightarrow> new < length s \<Longrightarrow>
      \<exists>s' cs'. copy_children fuel s new cs = Some s' \<and> length s \<le> length s'
            \<and> (\<forall>i < length s. i \<noteq> new \<longrightarrow> s' ! i = s ! i)
            \<and> s' ! new = (s ! new)\<lparr>nchildren := nchildren (s ! new) @ cs'\<rparr>
            \<and> list_all2 (repr (length s) (length s') s') cs' ts"
proof (induction cs arbitrary: ts s)
  case Nil
  then show ?case by simp
next
  case (Cons c rest)
  from Cons.prems(1) obtain t ts' where ts: "ts = t # ts'"
    and c: "repr 0 new s c t" and rest: "list_all2 (repr 0 new s) rest ts'"
    by (auto simp: list_all2_Cons1)
  from Cons.prems(2) ts have dt: "depth t \<le> fuel" and dts: "\<forall>t \<in> set ts'. depth t \<le> fuel"
    by simp_all
  note new = Cons.prems(3)
  from c new have "repr 0 (length s) s c t" by (intro repr_mono [of 0 0 new "length s"]) simp_all
  from D [OF dt this] obtain s1
    where s1: "deepcopy_at fuel s c = Some (length s, s1)" "length s < length s1"
      "\<forall>i < length s. s1 ! i = s ! i" "repr (length s) (length s1) s1 (length s) t"
    by blast
  define s2 where "s2 = s1[new := (s1 ! new)\<lparr>nchildren := nchildren (s1 ! new) @ [length s]\<rparr>]"
  have len2: "length s2 = length s1" by (simp add: s2_def)
  have s2_other: "s2 ! i = s1 ! i" if "i \<noteq> new" for i using that by (simp add: s2_def)
  from new s1(2,3) have s2_new: "s2 ! new = (s ! new)\<lparr>nchildren := nchildren (s ! new) @ [length s]\<rparr>"
    by (simp add: s2_def)
  have step: "copy_children fuel s new (c # rest) = copy_children fuel s2 new rest"
    by (simp add: s1(1) s2_def)
  have "list_all2 (repr 0 new s2) rest ts'"
  proof (rule list.rel_mono_strong [OF rest])
    fix z y
    assume "repr 0 new s z y"
    then show "repr 0 new s2 z y"
    proof (rule repr_frame [rotated])
      fix i
      assume "i < new" "i < length s"
      with s1(2,3) show "i < length s2 \<and> s2 ! i = s ! i" by (simp add: len2 s2_other)
    qed
  qed
  moreover from new s1(2) have "new < length s2" by (simp add: len2)
  ultimately obtain s3 cs''
    where s3: "copy_children fuel s2 new rest = Some s3" "length s2 \<le> length s3"
      "\<forall>i < length s2. i \<noteq> new \<longrightarrow> s3 ! i = s2 ! i"
      "s3 ! new = (s2 ! new)\<lparr>nchildren := nchildren (s2 ! new) @ cs''\<rparr>"
      "list_all2 (repr (length s2) (length s3) s3) cs'' ts'"
    using Cons.IH [OF _ dts] by blast
  have A: "copy_children fuel s new (c # rest) = Some s3" by (simp only: step s3(1))
  from s1(2) s3(2) have B: "length s \<le> length s3" by (simp add: len2)
  have C: "\<forall>i < length s. i \<noteq> new \<longrightarrow> s3 ! i = s ! i"
  proof (intro allI impI)
    fix i
    assume i: "i < length s" "i \<noteq> new"
    with s1(2) have "s3 ! i = s2 ! i" using s3(3) by (simp add: len2)
    with i s1(3) show "s3 ! i = s ! i" by (simp add: s2_other)
  qed
  have E: "s3 ! new = (s ! new)\<lparr>nchildren := nchildren (s ! new) @ (length s # cs'')\<rparr>"
    by (simp add: s3(4) s2_new)
  have "repr (length s) (length s1) s3 (length s) t"
  proof (rule repr_frame [OF _ s1(4)])
    fix i
    assume i: "length s \<le> i" "i < length s1" "i < length s1"
    with new have ne: "i \<noteq> new" by simp
    with i s3(3) have "s3 ! i = s2 ! i" by (simp add: len2)
    with ne i s3(2) show "i < length s3 \<and> s3 ! i = s1 ! i" by (simp add: s2_other len2)
  qed
  then have F1: "repr (length s) (length s3) s3 (length s) t"
    using s3(2) by (intro repr_mono [of "length s" "length s" "length s1" "length s3"])
      (simp_all add: len2)
  have F2: "list_all2 (repr (length s) (length s3) s3) cs'' ts'"
  proof (rule list.rel_mono_strong [OF s3(5)])
    fix z y
    assume "repr (length s2) (length s3) s3 z y"
    then show "repr (length s) (length s3) s3 z y"
      using s1(2) by (intro repr_mono [of "length s" "length s2" "length s3" "length s3"])
        (simp_all add: len2)
  qed
  from F1 F2 have F: "list_all2 (repr (length s) (length s3) s3) (length s # cs'') ts"
    by (simp add: ts)
  from A B C E F show ?case by blast
qed

lemma deepcopy_at_correct:
  "depth t \<le> fuel \<Longrightarrow> repr 0 (length s) s a t \<Longrightarrow>
     \<exists>s'. deepcopy_at fuel s a = Some (length s, s') \<and> length s < length s'
          \<and> (\<forall>i < length s. s' ! i = s ! i)
          \<and> repr (length s) (length s') s' (length s) t"
proof (induction fuel arbitrary: t s a)
  case 0
  then show ?case by (cases t) simp
next
  case (Suc fuel)
  obtain tg atts tx ta ts where t: "t = Element tg atts tx ta ts" by (cases t)
  from Suc.prems(2) t have a: "a < length s"
    and fields: "ntag (s ! a) = tg" "nattrib (s ! a) = atts" "ntext (s ! a) = tx"
      "ntail (s ! a) = ta"
    and kids: "list_all2 (repr 0 (length s) s) (nchildren (s ! a)) ts"
    by simp_all
  have dts: "\<forall>c \<in> set ts. depth c \<le> fuel"
  proof
    fix c
    assume "c \<in> set ts"
    then have "depth c < depth t" unfolding t by (rule depth_child)
    with Suc.prems(1) show "depth c \<le> fuel" by simp
  qed
  define new where "new = length s"
  define fresh where "fresh = \<lparr>ntag = ntag (s ! a), nattrib = nattrib (s ! a),
      ntext = None, ntail = None, nchildren = []\<rparr>"
  define s1 where "s1 = s @ [fresh]"
  have len1: "length s1 = Suc (length s)" by (simp add: s1_def)
  have s1_old: "s1 ! i = s ! i" if "i < length s" for i using that by (simp add: s1_def nth_append)
  have s1_new: "s1 ! new = fresh" by (simp add: s1_def new_def)
  have "list_all2 (repr 0 new s1) (nchildren (s ! a)) ts"
  proof (rule list.rel_mono_strong [OF kids])
    fix z y
    assume "repr 0 (length s) s z y"
    then have "repr 0 (length s) s1 z y"
    proof (rule repr_frame [rotated])
      fix i
      assume "i < length s"
      then show "i < length s1 \<and> s1 ! i = s ! i" by (simp add: len1 s1_old)
    qed
    then show "repr 0 new s1 z y" by (simp add: new_def)
  qed
  moreover have "new < length s1" by (simp add: new_def len1)
  ultimately obtain s2 cs'
    where s2: "copy_children fuel s1 new (nchildren (s ! a)) = Some s2" "length s1 \<le> length s2"
      "\<forall>i < length s1. i \<noteq> new \<longrightarrow> s2 ! i = s1 ! i"
      "s2 ! new = (s1 ! new)\<lparr>nchildren := nchildren (s1 ! new) @ cs'\<rparr>"
      "list_all2 (repr (length s1) (length s2) s2) cs' ts"
    using copy_children_correct [of fuel new s1 "nchildren (s ! a)" ts, OF Suc.IH _ dts]
    by blast
  from a s2(3) have s2_a: "s2 ! a = s ! a" by (simp add: len1 new_def s1_old)
  define s' where "s' = s2[new := (s2 ! new)\<lparr>ntext := ntext (s2 ! a), ntail := ntail (s2 ! a)\<rparr>]"
  have len': "length s' = length s2" by (simp add: s'_def)
  from s2(2) have new2: "new < length s2" by (simp add: new_def len1)
  have s'_other: "s' ! i = s2 ! i" if "i \<noteq> new" for i using that by (simp add: s'_def)
  from new2 have s'_new: "s' ! new = \<lparr>ntag = tg, nattrib = atts, ntext = tx, ntail = ta,
      nchildren = cs'\<rparr>"
    by (simp add: s'_def s2(4) s1_new fresh_def s2_a fields)
  from a have A: "deepcopy_at (Suc fuel) s a = Some (length s, s')"
    by (simp add: Let_def s1_def [symmetric] fresh_def [symmetric] new_def [symmetric]
        s1_old s2(1) s'_def)
  from s2(2) have B: "length s < length s'" by (simp add: len' len1)
  have C: "\<forall>i < length s. s' ! i = s ! i"
  proof (intro allI impI)
    fix i
    assume i: "i < length s"
    then have "i \<noteq> new" by (simp add: new_def)
    with i s2(3) show "s' ! i = s ! i" by (simp add: s'_other len1 s1_old)
  qed
  have "list_all2 (repr (length s) (length s') s') cs' ts"
  proof (rule list.rel_mono_strong [OF s2(5)])
    fix z y
    assume "repr (length s1) (length s2) s2 z y"
    then have "repr (length s1) (length s2) s' z y"
    proof (rule repr_frame [rotated])
      fix i
      assume "length s1 \<le> i" "i < length s2"
      then show "i < length s' \<and> s' ! i = s2 ! i" by (simp add: len' s'_other new_def len1)
    qed
    then show "repr (length s) (length s') s' z y"
      by (rule repr_mono [rotated 2]) (simp_all add: len1 len')
  qed
  with new2 have E: "repr (length s) (length s') s' (length s) t"
    by (simp add: t s'_new [unfolded new_def] len' new_def)
  from A B C E show ?case by blast
qed

lemma repr_reaches:
  assumes "reaches s a b"
  shows "repr lo hi s a t \<Longrightarrow> \<exists>t'. repr lo hi s b t'"
  using assms
proof (induction arbitrary: t)
  case self
  then show ?case by blast
next
  case (child b c)
  from child.IH [OF child.prems] obtain t' where t': "repr lo hi s b t'" by blast
  obtain tg atts tx ta cs where "t' = Element tg atts tx ta cs" by (cases t')
  with t' have "list_all2 (repr lo hi s) (nchildren (s ! b)) cs" by simp
  with child.hyps(3) obtain y where "repr lo hi s c y"
    by (auto simp: list_all2_conv_all_nth in_set_conv_nth)
  then show ?case by blast
qed

lemma repr_reaches_range:
  assumes "repr lo hi s a t" and "reaches s a b"
  shows "lo \<le> b \<and> b < hi"
proof -
  from repr_reaches [OF assms(2,1)] obtain t' where "repr lo hi s b t'" by blast
  then show ?thesis by (cases t') simp
qed

lemma take_unchanged:
  assumes "length s \<le> length s'" and "\<forall>i < length s. s' ! i = s ! i"
  shows "take (length s) s' = s"
  using assms by (intro nth_equalityI) simp_all

text \<open>
  Claim C10. Let the object \<open>elem\<close> stand for the tree \<open>t\<close> in the store, and let the
  recursion be allowed the depth of \<open>t\<close>. Then \<^verbatim>\<open>_deepcopy\<close> returns a new object
  that stands for the same tree as the original: tag, attributes, text, tail and,
  recursively, children are equal (it is the tree that the copy on values returns). No
  object that existed before is changed, so the original still stands for \<open>t\<close>. Every
  object reachable from the copy was created by the call, and none is reachable from the
  original: the two share no subelement. A second copy of the same element, as the
  patcher makes for the next section-properties element, is again such a copy, and no
  object is reachable from both copies.
\<close>

theorem deepcopy_shares_nothing:
  assumes "repr 0 (length s) s elem t" and "depth t \<le> fuel"
  shows "\<exists>new s'.
           deepcopy_at fuel s elem = Some (new, s')
         \<and> repr 0 (length s') s' new (deepcopy t)
         \<and> repr 0 (length s') s' elem t
         \<and> take (length s) s' = s
         \<and> (\<forall>a. reaches s' new a \<longrightarrow> length s \<le> a)
         \<and> (\<forall>a b. reaches s' new a \<and> reaches s' elem b \<longrightarrow> a \<noteq> b)
         \<and> (\<exists>new2 s''.
               deepcopy_at fuel s' elem = Some (new2, s'')
             \<and> repr 0 (length s'') s'' new2 (deepcopy t)
             \<and> repr 0 (length s'') s'' new (deepcopy t)
             \<and> (\<forall>a b. reaches s'' new a \<and> reaches s'' new2 b \<longrightarrow> a \<noteq> b))"
proof -
  from deepcopy_at_correct [OF assms(2,1)] obtain s'
    where s': "deepcopy_at fuel s elem = Some (length s, s')" "length s < length s'"
      "\<forall>i < length s. s' ! i = s ! i" "repr (length s) (length s') s' (length s) t"
    by blast
  have frame1: "i < length s' \<and> s' ! i = s ! i" if "i < length s" for i
    using that s'(2,3) by simp
  have orig': "repr 0 (length s) s' elem t"
    by (rule repr_frame [OF _ assms(1)]) (rule frame1)
  then have orig'': "repr 0 (length s') s' elem t"
    using s'(2) by (intro repr_mono [of 0 0 "length s" "length s'"]) simp_all
  from deepcopy_at_correct [OF assms(2) orig''] obtain s''
    where s'': "deepcopy_at fuel s' elem = Some (length s', s'')" "length s' < length s''"
      "\<forall>i < length s'. s'' ! i = s' ! i" "repr (length s') (length s'') s'' (length s') t"
    by blast
  have frame2: "i < length s'' \<and> s'' ! i = s' ! i" if "i < length s'" for i
    using that s''(2,3) by simp
  have copy1'': "repr (length s) (length s') s'' (length s) t"
    by (rule repr_frame [OF _ s'(4)]) (rule frame2)
  have 1: "repr 0 (length s') s' (length s) (deepcopy t)"
    using s'(4) unfolding deepcopy_id
    by (rule repr_mono [rotated 2]) simp_all
  have 2: "take (length s) s' = s"
    using s'(2,3) by (intro take_unchanged) simp_all
  have 3: "\<forall>a. reaches s' (length s) a \<longrightarrow> length s \<le> a"
    using repr_reaches_range [OF s'(4)] by blast
  have 4: "\<forall>a b. reaches s' (length s) a \<and> reaches s' elem b \<longrightarrow> a \<noteq> b"
  proof (intro allI impI)
    fix a b
    assume "reaches s' (length s) a \<and> reaches s' elem b"
    with repr_reaches_range [OF s'(4)] repr_reaches_range [OF orig']
    have "length s \<le> a" and "b < length s" by blast+
    then show "a \<noteq> b" by simp
  qed
  have 5: "repr 0 (length s'') s'' (length s') (deepcopy t)"
    using s''(4) unfolding deepcopy_id
    by (rule repr_mono [rotated 2]) simp_all
  have 6: "repr 0 (length s'') s'' (length s) (deepcopy t)"
    using copy1'' s''(2) unfolding deepcopy_id
    by (intro repr_mono [of 0 "length s" "length s'" "length s''"]) simp_all
  have 7: "\<forall>a b. reaches s'' (length s) a \<and> reaches s'' (length s') b \<longrightarrow> a \<noteq> b"
  proof (intro allI impI)
    fix a b
    assume "reaches s'' (length s) a \<and> reaches s'' (length s') b"
    with repr_reaches_range [OF copy1''] repr_reaches_range [OF s''(4)]
    have "a < length s'" and "length s' \<le> b" by blast+
    then show "a \<noteq> b" by simp
  qed
  from s'(1) 1 orig'' 2 3 4 s''(1) 5 6 7 show ?thesis by blast
qed

text \<open>
  The example fragment in a store of two objects: the copy lives at addresses from 2 on.
\<close>

theorem deepcopy_shares_nothing_witness:
  "\<exists>new s'. deepcopy_at 2 store_example 0 = Some (new, s')
      \<and> repr 0 (length s') s' new pg_example
      \<and> repr 0 (length s') s' 0 pg_example
      \<and> (\<forall>a. reaches s' new a \<longrightarrow> 2 \<le> a)"
proof -
  have len: "length store_example = 2" by (simp add: store_example_def)
  have "repr 0 2 store_example 0 pg_example"
    by (simp add: store_example_def pg_example_def)
  then have r: "repr 0 (length store_example) store_example 0 pg_example"
    by (simp only: len)
  have d: "depth pg_example \<le> 2" by (simp add: pg_example_def)
  from deepcopy_shares_nothing [OF r d] obtain new s'
    where "deepcopy_at 2 store_example 0 = Some (new, s')"
      and "repr 0 (length s') s' new (deepcopy pg_example)"
      and "repr 0 (length s') s' 0 pg_example"
      and "\<forall>a. reaches s' new a \<longrightarrow> length store_example \<le> a"
    by (elim exE conjE)
  then show ?thesis unfolding deepcopy_id len by (intro exI conjI)
qed


end
